theory Spec2Isabelle
  imports Complex_Main
begin

section \<open>JavaScript values used by the retrieval core\<close>

text \<open>
  Conventions of the embedding.
  \<^item> A JavaScript string is its sequence of code units. The type \<open>string\<close> covers the code
    units below 256 (Latin-1); \<open>length\<close> is the \<open>.length\<close> of the source.
  \<^item> A JavaScript number that is a coordinate of a vector in \<open>cosineSim\<close> or in an index
    builder is an IEEE 754 binary64 value, the type \<open>double\<close> below, with its rounding, its
    infinities, NaN and the two zeros. The scores of \<open>retrieve\<close> (they go through \<open>Math.log\<close>
    and \<open>Math.tanh\<close>, whose rounding the language leaves open) and the numbers of a parsed
    JSON document are \<open>real\<close>. A number that holds a count or a position (a length, an
    index, a budget) is a \<open>nat\<close> or an \<open>int\<close>.
  \<^item> A thrown \<open>Error\<close> is a value of the type \<open>error\<close>; a function that may throw returns
    \<open>error + 'a\<close>.
\<close>

datatype error =
    DimensionMismatch nat nat
  | ReadFailed string
  | JsonSyntax
  | IndexMissingVectorsOrChunks
  | IndexDimMismatch
  | IndexInvalidOrEmpty
  | NoDocuments
  | NoUsableText
  | NoIndexableFiles
  | NoTextualChunks
  | VectorChunkMismatch nat nat
  | ServiceError nat
  | TypeError
  | ThrownUndefined
  | MissingApiKey

subsection \<open>Strings\<close>

text \<open>White space as \<open>String.prototype.trim\<close> and the regular expression class \<open>\s\<close> see it
  (tab, line feed, vertical tab, form feed, carriage return, space, no-break space).\<close>

definition isWhiteSpace :: "char \<Rightarrow> bool" where
  "isWhiteSpace c = (of_char c \<in> {9, 10, 11, 12, 13, 32, 160 :: nat})"

text \<open>Line terminators: what the regular expression \<open>.\<close> does not match.\<close>

definition isLineTerminator :: "char \<Rightarrow> bool" where
  "isLineTerminator c = (of_char c \<in> {10, 13 :: nat})"

definition isDigit :: "char \<Rightarrow> bool" where
  "isDigit c = (48 \<le> (of_char c :: nat) \<and> (of_char c :: nat) \<le> 57)"

definition isUpperAZ :: "char \<Rightarrow> bool" where
  "isUpperAZ c = (65 \<le> (of_char c :: nat) \<and> (of_char c :: nat) \<le> 90)"

definition isLowerAZ :: "char \<Rightarrow> bool" where
  "isLowerAZ c = (97 \<le> (of_char c :: nat) \<and> (of_char c :: nat) \<le> 122)"

definition trimStart :: "string \<Rightarrow> string" where
  "trimStart s = dropWhile isWhiteSpace s"

definition trimEnd :: "string \<Rightarrow> string" where
  "trimEnd s = rev (dropWhile isWhiteSpace (rev s))"

definition trim :: "string \<Rightarrow> string" where
  "trim s = trimEnd (trimStart s)"

text \<open>\<open>s.toLowerCase()\<close> on code units below 256: A-Z and the Latin-1 capitals
  (U+00C0 to U+00DE without the multiplication sign U+00D7) move up by 32.\<close>

definition lowerChar :: "char \<Rightarrow> char" where
  "lowerChar c =
     (let n = (of_char c :: nat)
      in if (65 \<le> n \<and> n \<le> 90) \<or> (192 \<le> n \<and> n \<le> 222 \<and> n \<noteq> 215)
         then char_of (n + 32) else c)"

definition toLowerCase :: "string \<Rightarrow> string" where
  "toLowerCase s = map lowerChar s"

text \<open>\<open>xs.join(sep)\<close>.\<close>

fun join :: "string \<Rightarrow> string list \<Rightarrow> string" where
  "join sep [] = []"
| "join sep [x] = x"
| "join sep (x # y # ys) = x @ sep @ join sep (y # ys)"

text \<open>\<open>s.split("\n")\<close>: the pieces between line feeds; the empty string gives one empty piece.\<close>

fun split_nl :: "string \<Rightarrow> string list" where
  "split_nl [] = [[]]"
| "split_nl (c # cs) =
     (if c = CHR 0x0A then [] # split_nl cs
      else (case split_nl cs of [] \<Rightarrow> [[c]] | p # ps \<Rightarrow> (c # p) # ps))"

text \<open>\<open>s.replace(/\r\n/g, "\n")\<close>.\<close>

fun replace_crlf :: "string \<Rightarrow> string" where
  "replace_crlf (c # d # cs) =
     (if c = CHR 0x0D \<and> d = CHR 0x0A then CHR 0x0A # replace_crlf cs
      else c # replace_crlf (d # cs))"
| "replace_crlf cs = cs"

text \<open>\<open>s.split(/[^...]+/)\<close> for a character class: the pieces between maximal runs of
  separator characters. A separator run at the start or at the end leaves an empty piece there.\<close>

function split_runs :: "(char \<Rightarrow> bool) \<Rightarrow> string \<Rightarrow> string list" where
  "split_runs sep [] = [[]]"
| "split_runs sep (c # cs) =
     (if sep c then [] # split_runs sep (dropWhile sep cs)
      else (case split_runs sep cs of [] \<Rightarrow> [[c]] | p # ps \<Rightarrow> (c # p) # ps))"
  by pat_completeness auto
termination
  by (relation "measure (\<lambda>(sep, s). length s)")
     (auto simp: length_dropWhile_le less_Suc_eq_le)

text \<open>\<open>s.includes(t)\<close>: \<open>t\<close> occurs in \<open>s\<close> as a contiguous run.\<close>

fun starts_with :: "string \<Rightarrow> string \<Rightarrow> bool" where
  "starts_with s [] = True"
| "starts_with [] (d # t) = False"
| "starts_with (c # s) (d # t) = (c = d \<and> starts_with s t)"

fun includes_str :: "string \<Rightarrow> string \<Rightarrow> bool" where
  "includes_str [] t = (t = [])"
| "includes_str (c # s) t = (starts_with (c # s) t \<or> includes_str s t)"

text \<open>Decimal rendering of a count, as a template literal renders it.\<close>

definition digit_char :: "nat \<Rightarrow> char" where
  "digit_char d = ''0123456789'' ! d"

function decimal :: "nat \<Rightarrow> string" where
  "decimal n = (if n < 10 then [digit_char n]
                else decimal (n div 10) @ [digit_char (n mod 10)])"
  by pat_completeness auto
termination
  by (relation "measure id") auto

declare decimal.simps [simp del]

subsection \<open>Regular expressions\<close>

text \<open>A regular expression without back-references is its language; \<open>rx.test(s)\<close> with the
  pattern anchored by \<open>^\<close> and \<open>$\<close> (no flags) holds when the whole string is in the language.
  Membership is computed with derivatives.\<close>

datatype rx =
    Never
  | Empty
  | Class "char \<Rightarrow> bool"
  | Cat rx rx
  | Or rx rx
  | Many rx

fun nullable :: "rx \<Rightarrow> bool" where
  "nullable Never = False"
| "nullable Empty = True"
| "nullable (Class p) = False"
| "nullable (Cat r s) = (nullable r \<and> nullable s)"
| "nullable (Or r s) = (nullable r \<or> nullable s)"
| "nullable (Many r) = True"

fun deriv :: "char \<Rightarrow> rx \<Rightarrow> rx" where
  "deriv c Never = Never"
| "deriv c Empty = Never"
| "deriv c (Class p) = (if p c then Empty else Never)"
| "deriv c (Cat r s) =
     (if nullable r then Or (Cat (deriv c r) s) (deriv c s) else Cat (deriv c r) s)"
| "deriv c (Or r s) = Or (deriv c r) (deriv c s)"
| "deriv c (Many r) = Cat (deriv c r) (Many r)"

definition rx_test :: "rx \<Rightarrow> string \<Rightarrow> bool" where
  "rx_test r s = nullable (fold deriv s r)"

definition Some1 :: "rx \<Rightarrow> rx" where
  "Some1 r = Cat r (Many r)"

definition Lit :: "char \<Rightarrow> rx" where
  "Lit c = Class (\<lambda>d. d = c)"

definition AnyChar :: rx where
  "AnyChar = Class (\<lambda>c. \<not> isLineTerminator c)"

text \<open>
  \<^verbatim>\<open>/^(#+\s+.+|(?:[A-Z][A-Z0-9 ]{3,}|.+:)$|\d+(?:\.\d+)*\s+.+)$/\<close>
  The build script writes the third alternative with a leading \<open>^\<close>, which holds there
  because the alternative starts at position 0; both files have this language.
\<close>

definition HEADING_RX :: rx where
  "HEADING_RX =
     Or (Cat (Some1 (Lit (CHR ''#''))) (Cat (Some1 (Class isWhiteSpace)) (Some1 AnyChar)))
    (Or (Or (Cat (Class isUpperAZ)
                (let u = Class (\<lambda>c. isUpperAZ c \<or> isDigit c \<or> c = CHR '' '')
                 in Cat u (Cat u (Cat u (Many u)))))
            (Cat (Some1 AnyChar) (Lit (CHR '':''))))
        (Cat (Some1 (Class isDigit))
             (Cat (Many (Cat (Lit (CHR ''.'')) (Some1 (Class isDigit))))
                  (Cat (Some1 (Class isWhiteSpace)) (Some1 AnyChar)))))"

text \<open>\<open>s.replace(/^#+\s*/, "")\<close>.\<close>

definition strip_hashes :: "string \<Rightarrow> string" where
  "strip_hashes s =
     (case s of
        [] \<Rightarrow> []
      | c # cs \<Rightarrow> if c = CHR ''#''
                  then dropWhile isWhiteSpace (dropWhile (\<lambda>d. d = CHR ''#'') s)
                  else s)"

text \<open>\<open>s.replace(/[#\d\.\s]/g, "")\<close>.\<close>

definition strip_marks :: "string \<Rightarrow> string" where
  "strip_marks s =
     filter (\<lambda>c. \<not> (c = CHR ''#'' \<or> isDigit c \<or> c = CHR ''.'' \<or> isWhiteSpace c)) s"

subsection \<open>Numbers\<close>

text \<open>An IEEE 754 binary64 value: a finite value other than \<open>-0\<close> (\<open>Fin x\<close> with the real it
  denotes; \<open>Fin 0\<close> is \<open>+0\<close>), \<open>-0\<close>, the two infinities, or NaN.\<close>

datatype double = Fin real | NegZero | PosInf | NegInf | NaN

fun is_zero :: "double \<Rightarrow> bool" where
  "is_zero (Fin x) = (x = 0)"
| "is_zero NegZero = True"
| "is_zero d = False"

fun is_inf :: "double \<Rightarrow> bool" where
  "is_inf PosInf = True"
| "is_inf NegInf = True"
| "is_inf d = False"

text \<open>The sign bit, and the real a finite value denotes.\<close>

fun sign_bit :: "double \<Rightarrow> bool" where
  "sign_bit (Fin x) = (x < 0)"
| "sign_bit NegZero = True"
| "sign_bit NegInf = True"
| "sign_bit d = False"

fun val :: "double \<Rightarrow> real" where
  "val (Fin x) = x"
| "val d = 0"

definition signed_zero :: "bool \<Rightarrow> double" where
  "signed_zero s = (if s then NegZero else Fin 0)"

definition signed_inf :: "bool \<Rightarrow> double" where
  "signed_inf s = (if s then NegInf else PosInf)"

text \<open>Rounding to nearest, ties to even, with 53 bits of precision. The exponent of a normal
  value runs from \<open>emin\<close> to \<open>emax - 1\<close>; below \<open>2 powi emin\<close> the values are spaced like
  those of exponent \<open>emin\<close> (subnormal values). \<open>ulp x\<close> is the spacing of the doubles at
  \<open>x\<close>, \<open>rhe\<close> rounds a real to the nearest integer, a tie to the even one, and
  \<open>round_real x\<close> is the nearest multiple of \<open>ulp x\<close>. A result of magnitude \<open>2 powi emax\<close> or
  more is an infinity; a negative value that rounds to zero gives \<open>-0\<close>.\<close>

definition emin :: int where
  "emin = - 1022"

definition emax :: int where
  "emax = 1024"

definition expo :: "real \<Rightarrow> int" where
  "expo x = max \<lfloor>log 2 \<bar>x\<bar>\<rfloor> emin"

definition ulp :: "real \<Rightarrow> real" where
  "ulp x = 2 powi (expo x - 52)"

definition rhe :: "real \<Rightarrow> int" where
  "rhe y =
     (let f = \<lfloor>y\<rfloor>
      in if y - of_int f < 1 / 2 then f
         else if 1 / 2 < y - of_int f then f + 1
         else if even f then f else f + 1)"

definition round_real :: "real \<Rightarrow> real" where
  "round_real x = of_int (rhe (x / ulp x)) * ulp x"

definition rnd :: "real \<Rightarrow> double" where
  "rnd x =
     (let r = round_real x
      in if 2 powi emax \<le> r then PosInf
         else if r \<le> - (2 powi emax) then NegInf
         else if r = 0 \<and> x < 0 then NegZero
         else Fin r)"

text \<open>\<open>a + b\<close>. An exact sum of zero is \<open>+0\<close> unless both operands are \<open>-0\<close>.\<close>

definition fadd :: "double \<Rightarrow> double \<Rightarrow> double" where
  "fadd a b =
     (if a = NaN \<or> b = NaN then NaN
      else if is_inf a then (if is_inf b \<and> sign_bit a \<noteq> sign_bit b then NaN else a)
      else if is_inf b then b
      else if val a + val b = 0 then signed_zero (is_zero a \<and> sign_bit a \<and> sign_bit b)
      else rnd (val a + val b))"

text \<open>\<open>a * b\<close>.\<close>

definition fmul :: "double \<Rightarrow> double \<Rightarrow> double" where
  "fmul a b =
     (if a = NaN \<or> b = NaN then NaN
      else if is_inf a \<or> is_inf b
           then (if is_zero a \<or> is_zero b then NaN else signed_inf (sign_bit a \<noteq> sign_bit b))
      else if is_zero a \<or> is_zero b then signed_zero (sign_bit a \<noteq> sign_bit b)
      else rnd (val a * val b))"

text \<open>\<open>a / b\<close>: \<open>0 / 0\<close> is NaN and any other value divided by a zero is an infinity.\<close>

definition fdiv :: "double \<Rightarrow> double \<Rightarrow> double" where
  "fdiv a b =
     (if a = NaN \<or> b = NaN then NaN
      else if is_inf a then (if is_inf b then NaN else signed_inf (sign_bit a \<noteq> sign_bit b))
      else if is_inf b then signed_zero (sign_bit a \<noteq> sign_bit b)
      else if is_zero b
           then (if is_zero a then NaN else signed_inf (sign_bit a \<noteq> sign_bit b))
      else if is_zero a then signed_zero (sign_bit a \<noteq> sign_bit b)
      else rnd (val a / val b))"

text \<open>\<open>Math.sqrt(a)\<close>.\<close>

fun fsqrt :: "double \<Rightarrow> double" where
  "fsqrt (Fin x) = (if x < 0 then NaN else rnd (sqrt x))"
| "fsqrt NegZero = NegZero"
| "fsqrt PosInf = PosInf"
| "fsqrt NegInf = NaN"
| "fsqrt NaN = NaN"


definition falsy :: "double \<Rightarrow> bool" where
  "falsy d = (d = NaN \<or> is_zero d)"

subsection \<open>Vectors\<close>

text \<open>The vectors of \<open>retrieve\<close> have real coordinates; the vectors of \<open>cosineSim\<close> and of the
  index builders have doubles.\<close>

type_synonym vec = "real list"

type_synonym dvec = "double list"





definition l2_norm :: "vec \<Rightarrow> real" where
  "l2_norm a = sqrt (\<Sum>x \<leftarrow> a. x * x)"

text \<open>The sum of the squares of a vector and the sum of the products of two vectors, added
  up from the left in double arithmetic.\<close>

definition sum_sq :: "dvec \<Rightarrow> double" where
  "sum_sq a = fold (\<lambda>x s. fadd s (fmul x x)) a (Fin 0)"


subsection \<open>Parsed JSON\<close>

text \<open>The value \<open>JSON.parse\<close> returns. Property reads follow JavaScript: a missing property
  is \<open>undefined\<close> (\<open>None\<close>), arrays and strings have a \<open>length\<close>, and a repeated key of an object
  keeps its last value.\<close>

datatype json =
    JNull
  | JBool bool
  | JNum real
  | JStr string
  | JArr "json list"
  | JObj "(string \<times> json) list"

fun get_prop :: "json \<Rightarrow> string \<Rightarrow> json option" where
  "get_prop (JObj kvs) k = map_of (rev kvs) k"
| "get_prop (JArr xs) k = (if k = ''length'' then Some (JNum (real (length xs))) else None)"
| "get_prop (JStr s) k = (if k = ''length'' then Some (JNum (real (length s))) else None)"
| "get_prop v k = None"

text \<open>\<open>x?.k\<close>: \<open>undefined\<close> when \<open>x\<close> is \<open>undefined\<close> or \<open>null\<close>.\<close>

fun opt_prop :: "json option \<Rightarrow> string \<Rightarrow> json option" where
  "opt_prop None k = None"
| "opt_prop (Some JNull) k = None"
| "opt_prop (Some v) k = get_prop v k"

text \<open>\<open>x[0]\<close>.\<close>

fun index0 :: "json \<Rightarrow> json option" where
  "index0 (JArr xs) = (case xs of [] \<Rightarrow> None | x # _ \<Rightarrow> Some x)"
| "index0 (JStr s) = (case s of [] \<Rightarrow> None | c # _ \<Rightarrow> Some (JStr [c]))"
| "index0 (JObj kvs) = map_of (rev kvs) ''0''"
| "index0 v = None"

fun truthy :: "json option \<Rightarrow> bool" where
  "truthy None = False"
| "truthy (Some JNull) = False"
| "truthy (Some (JBool b)) = b"
| "truthy (Some (JNum x)) = (x \<noteq> 0)"
| "truthy (Some (JStr s)) = (s \<noteq> [])"
| "truthy (Some (JArr xs)) = True"
| "truthy (Some (JObj kvs)) = True"

text \<open>\<open>x === y\<close> on values read from one parsed document: primitives by value, and two
  arrays or objects (read from different places of the document) are never the same object.\<close>

fun strict_eq :: "json option \<Rightarrow> json option \<Rightarrow> bool" where
  "strict_eq None None = True"
| "strict_eq (Some JNull) (Some JNull) = True"
| "strict_eq (Some (JBool a)) (Some (JBool b)) = (a = b)"
| "strict_eq (Some (JNum a)) (Some (JNum b)) = (a = b)"
| "strict_eq (Some (JStr a)) (Some (JStr b)) = (a = b)"
| "strict_eq x y = False"

text \<open>What a file holds: text that \<open>JSON.parse\<close> rejects, or the text of a JSON value.\<close>

datatype file_content = NotJson string | JsonText json

type_synonym filesystem = "string \<rightharpoonup> file_content"

section \<open>Data model\<close>

text \<open>The \<open>Chunk\<close> of src/lib/rag/chunk.ts and scripts/build-index.ts, and the \<open>VectorIndex\<close>
  of src/lib/rag/retrieval.ts, which is the object the build script writes. An absent
  \<open>section\<close> is \<open>None\<close>.\<close>

record Chunk =
  id_c :: string
  source_name :: string
  source_path :: string
  section_c :: "string option"
  text_c :: string
  order :: nat

record 'n VectorIndex =
  model :: string
  dim :: nat
  chunks :: "Chunk list"
  vectors :: "'n list list"

text \<open>\<open>JSON.stringify\<close> of these objects, read back by \<open>JSON.parse\<close>: the properties in the
  order the object literals list them; an \<open>undefined\<close> section is left out. A finite number
  is written as a number (\<open>-0\<close> as \<open>0\<close>), an infinity or NaN as \<open>null\<close>.\<close>

definition chunk_json :: "Chunk \<Rightarrow> json" where
  "chunk_json c =
     JObj ([(''id'', JStr (id_c c)),
            (''source_name'', JStr (source_name c)),
            (''source_path'', JStr (source_path c))] @
           (case section_c c of None \<Rightarrow> [] | Some sec \<Rightarrow> [(''section'', JStr sec)]) @
           [(''text'', JStr (text_c c)),
            (''order'', JNum (real (order c)))])"

fun double_json :: "double \<Rightarrow> json" where
  "double_json (Fin x) = JNum x"
| "double_json NegZero = JNum 0"
| "double_json d = JNull"

definition vec_json :: "dvec \<Rightarrow> json" where
  "vec_json v = JArr (map double_json v)"

definition index_json :: "double VectorIndex \<Rightarrow> json" where
  "index_json out =
     JObj [(''model'', JStr (model out)),
           (''dim'', JNum (real (dim out))),
           (''chunks'', JArr (map chunk_json (chunks out))),
           (''vectors'', JArr (map vec_json (vectors out)))]"

section \<open>Chunking\<close>

text \<open>A block of the first pass: the heading trail at its start and its trimmed text.\<close>

record Block =
  headingTrail :: "string list"
  block_text :: string

text \<open>The state of the pass over the lines: \<open>blocks\<close>, \<open>trail\<close> and \<open>buf\<close>.\<close>

record line_state =
  ls_blocks :: "Block list"
  ls_trail :: "string list"
  ls_buf :: "string list"

definition NL :: string where
  "NL = [CHR 0x0A]"

text \<open>\<open>pushBuf\<close> (called \<open>flush\<close> in the build script).\<close>

definition pushBuf :: "line_state \<Rightarrow> line_state" where
  "pushBuf st =
     (let txt = trim (join NL (ls_buf st))
      in st\<lparr>ls_blocks := (if txt \<noteq> [] then ls_blocks st @ [\<lparr>headingTrail = ls_trail st, block_text = txt\<rparr>]
                        else ls_blocks st),
            ls_buf := []\<rparr>)"

text \<open>\<open>while (trail.length > 3) trail.shift()\<close>.\<close>

function trail_cap :: "string list \<Rightarrow> string list" where
  "trail_cap t = (if length t > 3 then trail_cap (tl t) else t)"
  by pat_completeness auto
termination
  by (relation "measure length") auto

text \<open>\<open>trail.join(" > ") || undefined\<close>.\<close>

definition section_of :: "string list \<Rightarrow> string option" where
  "section_of t = (let j = join '' > '' t in if j = [] then None else Some j)"

text \<open>The tail of the joined bundle that seeds the next one:
  \<open>joined.slice(Math.max(0, joined.length - overlap))\<close>.\<close>

definition overlap_tail :: "string list \<Rightarrow> nat \<Rightarrow> string" where
  "overlap_tail parts overlap = (let joined = join NL parts in drop (length joined - overlap) joined)"

subsection \<open>\<open>chunkStructured\<close> of src/lib/rag/chunk.ts\<close>

text \<open>The sizes \<open>targetChars\<close> and \<open>overlapChars\<close> are counts of characters. \<open>sha1\<close> is the
  digest of \<open>node:crypto\<close>.\<close>

definition line_step :: "line_state \<Rightarrow> string \<Rightarrow> line_state" where
  "line_step st line =
     (let trimmedEnd = trimEnd line
      in if rx_test HEADING_RX trimmedEnd
         then (let st1 = pushBuf st;
                   h = trim (strip_hashes trimmedEnd)
               in if strip_marks h \<noteq> [] then st1\<lparr>ls_trail := trail_cap (ls_trail st1 @ [h])\<rparr> else st1)
         else st\<lparr>ls_buf := ls_buf st @ [line]\<rparr>)"

definition to_blocks :: "string \<Rightarrow> Block list" where
  "to_blocks raw =
     (let safe = replace_crlf raw;
          lines = split_nl safe
      in ls_blocks (pushBuf (fold (\<lambda>line st. line_step st line) lines
                            \<lparr>ls_blocks = [], ls_trail = [], ls_buf = []\<rparr>)))"

text \<open>The state of the bundling pass: the chunks so far, \<open>order\<close>, \<open>acc\<close>, \<open>accLen\<close> and
  \<open>currentSection\<close>.\<close>

record bundle_state =
  bs_out :: "Chunk list"
  bs_order :: nat
  bs_acc :: "string list"
  bs_accLen :: nat
  bs_currentSection :: "string option"

text \<open>\<open>sourcePath.split(/[\\/]/).pop() || sourcePath\<close>.\<close>

definition last_segment :: "string \<Rightarrow> string" where
  "last_segment p =
     (let seg = rev (takeWhile (\<lambda>c. c \<noteq> CHR ''/'' \<and> c \<noteq> CHR 0x5C) (rev p))
      in if seg = [] then p else seg)"

definition emit :: "(string \<Rightarrow> string) \<Rightarrow> string \<Rightarrow> bundle_state \<Rightarrow> bundle_state" where
  "emit sha1 sourcePath st =
     (let txt = trim (join NL (bs_acc st))
      in if txt = [] then st
         else st\<lparr>bs_out := bs_out st @
                    [\<lparr>id_c = sha1 (sourcePath @ ''::'' @ decimal (bs_order st) @ ''::'' @
                                   (case bs_currentSection st of None \<Rightarrow> [] | Some sec \<Rightarrow> sec) @
                                   ''::'' @ take 64 txt),
                      source_name = last_segment sourcePath,
                      source_path = sourcePath,
                      section_c = bs_currentSection st,
                      text_c = txt,
                      order = bs_order st\<rparr>],
                 bs_order := bs_order st + 1\<rparr>)"

definition bundle_step ::
  "(string \<Rightarrow> string) \<Rightarrow> string \<Rightarrow> nat \<Rightarrow> nat \<Rightarrow> bundle_state \<Rightarrow> Block \<Rightarrow> bundle_state" where
  "bundle_step sha1 sourcePath targetChars overlapChars st b =
     (let blockSection = section_of (headingTrail b);
          piece = block_text b;
          st1 = (if bs_acc st \<noteq> [] \<and> bs_accLen st + length piece + 1 > targetChars
                 then (let e = emit sha1 sourcePath st;
                           e1 = (if overlapChars > 0
                                 then (let tail = overlap_tail (bs_acc e) overlapChars
                                       in e\<lparr>bs_acc := [tail], bs_accLen := length tail\<rparr>)
                                 else e\<lparr>bs_acc := [], bs_accLen := 0\<rparr>)
                       in e1\<lparr>bs_currentSection := blockSection\<rparr>)
                 else if bs_acc st = [] then st\<lparr>bs_currentSection := blockSection\<rparr>
                 else st)
      in st1\<lparr>bs_acc := bs_acc st1 @ [piece], bs_accLen := bs_accLen st1 + (length piece + 1)\<rparr>)"

definition chunkStructured ::
  "(string \<Rightarrow> string) \<Rightarrow> string \<Rightarrow> string \<Rightarrow> nat \<Rightarrow> nat \<Rightarrow> Chunk list" where
  "chunkStructured sha1 raw sourcePath targetChars overlapChars =
     (let bs = to_blocks raw;
          st0 = \<lparr>bs_out = [], bs_order = 0, bs_acc = [], bs_accLen = 0,
                 bs_currentSection = (case bs of [] \<Rightarrow> None | b # _ \<Rightarrow> section_of (headingTrail b))\<rparr>;
          st = fold (\<lambda>b st. bundle_step sha1 sourcePath targetChars overlapChars st b) bs st0
      in bs_out (if bs_acc st \<noteq> [] then emit sha1 sourcePath st else st))"

definition smartChunk :: "(string \<Rightarrow> string) \<Rightarrow> string \<Rightarrow> nat \<Rightarrow> nat \<Rightarrow> string list" where
  "smartChunk sha1 raw targetChars overlapChars =
     map text_c (chunkStructured sha1 raw ''__memory__'' targetChars overlapChars)"

subsection \<open>\<open>chunkStructured\<close> of scripts/build-index.ts\<close>

definition CHUNK_CHAR_TARGET :: nat where
  "CHUNK_CHAR_TARGET = 1200"

definition CHUNK_CHAR_OVERLAP :: nat where
  "CHUNK_CHAR_OVERLAP = 220"

definition MIN_CHARS_PER_CHUNK :: nat where
  "MIN_CHARS_PER_CHUNK = 120"

definition normalizeWs :: "string \<Rightarrow> string" where
  "normalizeWs s = trim (join NL (map trimEnd (split_nl (replace_crlf s))))"

definition line_step_script :: "line_state \<Rightarrow> string \<Rightarrow> line_state" where
  "line_step_script st line =
     (let s = trimEnd line
      in if rx_test HEADING_RX s
         then (let st1 = pushBuf st;
                   cleaned = strip_hashes s
               in if strip_marks cleaned \<noteq> []
                  then (let t = ls_trail st1 @ [cleaned]
                        in st1\<lparr>ls_trail := (if length t > 3 then tl t else t)\<rparr>)
                  else st1)
         else st\<lparr>ls_buf := ls_buf st @ [line]\<rparr>)"

definition to_blocks_script :: "string \<Rightarrow> Block list" where
  "to_blocks_script raw =
     (let lines = split_nl (normalizeWs raw)
      in ls_blocks (pushBuf (fold (\<lambda>line st. line_step_script st line) lines
                            \<lparr>ls_blocks = [], ls_trail = [], ls_buf = []\<rparr>)))"

text \<open>The push of a chunk with text \<open>t\<close>, guarded as the three places of the script guard it:
  \<open>t && t.length >= MIN_CHARS_PER_CHUNK\<close>. \<open>srcName\<close> is \<open>path.basename(sourcePath)\<close>.\<close>

definition push_if_long ::
  "string \<Rightarrow> string \<Rightarrow> string option \<Rightarrow> string \<Rightarrow> Chunk list \<times> nat \<Rightarrow> Chunk list \<times> nat" where
  "push_if_long srcName sourcePath sec t st =
     (case st of (cs, n) \<Rightarrow>
        if t \<noteq> [] \<and> length t \<ge> MIN_CHARS_PER_CHUNK
        then (cs @ [\<lparr>id_c = srcName @ ''::'' @ decimal n,
                      source_name = srcName,
                      source_path = sourcePath,
                      section_c = sec,
                      text_c = t,
                      order = n\<rparr>], n + 1)
        else (cs, n))"

definition emit_script :: "string \<Rightarrow> string \<Rightarrow> bundle_state \<Rightarrow> bundle_state" where
  "emit_script srcName sourcePath st =
     (case push_if_long srcName sourcePath (bs_currentSection st) (trim (join NL (bs_acc st)))
             (bs_out st, bs_order st) of
        (cs, n) \<Rightarrow> st\<lparr>bs_out := cs, bs_order := n\<rparr>)"

text \<open>The sub-split of a block longer than \<open>1.5 * target\<close>. The state is the chunks and
  \<open>order\<close>, with \<open>cur\<close> and \<open>curLen\<close>.\<close>

record split_state =
  ss_out :: "Chunk list \<times> nat"
  ss_cur :: "string list"
  ss_curLen :: nat

definition flushCur ::
  "string \<Rightarrow> string \<Rightarrow> string option \<Rightarrow> nat \<Rightarrow> split_state \<Rightarrow> split_state" where
  "flushCur srcName sourcePath blockSection overlap st =
     (let pushed = push_if_long srcName sourcePath blockSection (trim (join NL (ss_cur st))) (ss_out st)
      in if overlap > 0
         then (let tail = overlap_tail (ss_cur st) overlap
               in \<lparr>ss_out = pushed, ss_cur = [tail], ss_curLen = length tail\<rparr>)
         else \<lparr>ss_out = pushed, ss_cur = [], ss_curLen = 0\<rparr>)"

definition split_line ::
  "string \<Rightarrow> string \<Rightarrow> string option \<Rightarrow> nat \<Rightarrow> nat \<Rightarrow> split_state \<Rightarrow> string \<Rightarrow> split_state" where
  "split_line srcName sourcePath blockSection target overlap st l =
     (let st1 = (if ss_curLen st + length l + 1 > target \<and> ss_cur st \<noteq> []
                 then flushCur srcName sourcePath blockSection overlap st else st)
      in st1\<lparr>ss_cur := ss_cur st1 @ [l], ss_curLen := ss_curLen st1 + (length l + 1)\<rparr>)"

definition split_block ::
  "string \<Rightarrow> string \<Rightarrow> string option \<Rightarrow> nat \<Rightarrow> nat \<Rightarrow> string \<Rightarrow> Chunk list \<times> nat \<Rightarrow> Chunk list \<times> nat" where
  "split_block srcName sourcePath blockSection target overlap piece st =
     (let lines = split_nl piece;
          fin = fold (\<lambda>l s. split_line srcName sourcePath blockSection target overlap s l) lines
                  \<lparr>ss_out = st, ss_cur = [], ss_curLen = 0\<rparr>
      in if ss_cur fin \<noteq> []
         then push_if_long srcName sourcePath blockSection (trim (join NL (ss_cur fin))) (ss_out fin)
         else ss_out fin)"

text \<open>\<open>piece.length > target * 1.5\<close> is \<open>2 * piece.length > 3 * target\<close> on counts.\<close>

definition bundle_step_script ::
  "string \<Rightarrow> string \<Rightarrow> nat \<Rightarrow> nat \<Rightarrow> bundle_state \<Rightarrow> Block \<Rightarrow> bundle_state" where
  "bundle_step_script srcName sourcePath target overlap st b =
     (let blockSection = section_of (headingTrail b);
          piece = block_text b
      in if 2 * length piece > 3 * target
         then (case split_block srcName sourcePath blockSection target overlap piece
                      (bs_out st, bs_order st) of
                 (cs, n) \<Rightarrow> st\<lparr>bs_out := cs, bs_order := n\<rparr>)
         else (let st1 = (if bs_accLen st + length piece + 2 > target \<and> bs_acc st \<noteq> []
                          then (let e = emit_script srcName sourcePath st;
                                    e1 = (if overlap > 0
                                          then (let tail = overlap_tail (bs_acc e) overlap
                                                in e\<lparr>bs_acc := [tail], bs_accLen := length tail\<rparr>)
                                          else e\<lparr>bs_acc := [], bs_accLen := 0\<rparr>)
                                in e1\<lparr>bs_currentSection := blockSection\<rparr>)
                          else if bs_acc st = [] then st\<lparr>bs_currentSection := blockSection\<rparr>
                          else st)
               in st1\<lparr>bs_acc := bs_acc st1 @ [piece], bs_accLen := bs_accLen st1 + (length piece + 2)\<rparr>))"

definition chunkStructured_script ::
  "(string \<Rightarrow> string) \<Rightarrow> string \<Rightarrow> string \<Rightarrow> nat \<Rightarrow> nat \<Rightarrow> Chunk list" where
  "chunkStructured_script path_basename raw sourcePath target overlap =
     (let srcName = path_basename sourcePath;
          bs = to_blocks_script raw;
          st0 = \<lparr>bs_out = [], bs_order = 0, bs_acc = [], bs_accLen = 0,
                 bs_currentSection = (case bs of [] \<Rightarrow> None | b # _ \<Rightarrow> section_of (headingTrail b))\<rparr>;
          st = fold (\<lambda>b st. bundle_step_script srcName sourcePath target overlap st b) bs st0
      in bs_out (if bs_acc st \<noteq> [] then emit_script srcName sourcePath st else st))"

section \<open>Index readers\<close>

subsection \<open>\<open>loadIndex\<close> (src/lib/rag/search.ts)\<close>

text \<open>The module state: the variable \<open>memoIndex\<close>, and the paths handed to \<open>fs.readFile\<close> so
  far (kept to state which calls read a file).\<close>

record search_module =
  memoIndex :: "json option"
  reads :: "string list"

text \<open>The body of \<open>loadIndex\<close> after the memo test. \<open>path_resolve\<close> is Node's \<open>path.resolve\<close>.\<close>

definition loadIndex_read ::
  "(string \<Rightarrow> string) \<Rightarrow> filesystem \<Rightarrow> search_module \<Rightarrow> string \<Rightarrow> (error + json) \<times> search_module" where
  "loadIndex_read path_resolve fs st indexFilePath =
     (let abs = path_resolve indexFilePath;
          st1 = st\<lparr>reads := reads st @ [abs]\<rparr>
      in case fs abs of
           None \<Rightarrow> (Inl (ReadFailed abs), st1)
         | Some (NotJson raw) \<Rightarrow> (Inl JsonSyntax, st1)
         | Some (JsonText parsed) \<Rightarrow>
             if \<not> truthy (opt_prop (opt_prop (Some parsed) ''vectors'') ''length'') \<or>
                \<not> truthy (opt_prop (opt_prop (Some parsed) ''chunks'') ''length'')
             then (Inl IndexMissingVectorsOrChunks, st1)
             else (case (case get_prop parsed ''vectors'' of None \<Rightarrow> None | Some v \<Rightarrow> index0 v) of
                     None \<Rightarrow> (Inl TypeError, st1)
                   | Some JNull \<Rightarrow> (Inl TypeError, st1)
                   | Some v0 \<Rightarrow>
                       if \<not> strict_eq (get_prop v0 ''length'') (get_prop parsed ''dim'')
                       then (Inl IndexDimMismatch, st1)
                       else (Inr parsed, st1\<lparr>memoIndex := Some parsed\<rparr>)))"

definition loadIndex ::
  "(string \<Rightarrow> string) \<Rightarrow> filesystem \<Rightarrow> search_module \<Rightarrow> string \<Rightarrow> (error + json) \<times> search_module" where
  "loadIndex path_resolve fs st indexFilePath =
     (case memoIndex st of
        None \<Rightarrow> loadIndex_read path_resolve fs st indexFilePath
      | Some m \<Rightarrow> if truthy (Some m) then (Inr m, st)
                  else loadIndex_read path_resolve fs st indexFilePath)"

subsection \<open>\<open>getIndex\<close> (app/api/ask/route.ts)\<close>

record route_module =
  cache :: "json option"
  route_reads :: "string list"

text \<open>\<open>cache\<close> is assigned the parsed value before it is checked.\<close>

definition getIndex_read :: "string \<Rightarrow> filesystem \<Rightarrow> route_module \<Rightarrow> (error + json) \<times> route_module" where
  "getIndex_read INDEX_FILE fs st =
     (let st1 = st\<lparr>route_reads := route_reads st @ [INDEX_FILE]\<rparr>
      in case fs INDEX_FILE of
           None \<Rightarrow> (Inl (ReadFailed INDEX_FILE), st1)
         | Some (NotJson raw) \<Rightarrow> (Inl JsonSyntax, st1)
         | Some (JsonText parsed) \<Rightarrow>
             (let st2 = st1\<lparr>cache := Some parsed\<rparr>
              in if \<not> truthy (opt_prop (opt_prop (Some parsed) ''chunks'') ''length'') \<or>
                    \<not> truthy (opt_prop (opt_prop (Some parsed) ''vectors'') ''length'')
                 then (Inl IndexInvalidOrEmpty, st2)
                 else (Inr parsed, st2)))"

definition getIndex :: "string \<Rightarrow> filesystem \<Rightarrow> route_module \<Rightarrow> (error + json) \<times> route_module" where
  "getIndex INDEX_FILE fs st =
     (case cache st of
        None \<Rightarrow> getIndex_read INDEX_FILE fs st
      | Some c \<Rightarrow> if truthy (Some c) then (Inr c, st) else getIndex_read INDEX_FILE fs st)"

section \<open>Retrieval (src/lib/rag/retrieval.ts)\<close>

text \<open>The embeddings endpoint: the model name and the input texts give the embeddings of
  \<open>data\<close>, in order, or the call throws.\<close>

type_synonym 'n embed_client = "string \<Rightarrow> string list \<Rightarrow> error + 'n list list"

subsection \<open>Keyword weights\<close>

text \<open>The class \<^verbatim>\<open>[a-z0-9\u00C0-\u024F]\<close> on code units below 256.\<close>

definition isTokenChar :: "char \<Rightarrow> bool" where
  "isTokenChar c = (isLowerAZ c \<or> isDigit c \<or> 192 \<le> (of_char c :: nat))"

text \<open>\<^verbatim>\<open>s.toLowerCase().split(/[^a-z0-9\u00C0-\u024F]+/)\<close>.\<close>

definition lower_split :: "string \<Rightarrow> string list" where
  "lower_split s = split_runs (\<lambda>c. \<not> isTokenChar c) (toLowerCase s)"

text \<open>The inner loop of \<open>makeIdf\<close> over the tokens of one document; the state is \<open>seen\<close> and
  \<open>df\<close>.\<close>

fun makeIdf_tokens :: "string list \<Rightarrow> string set \<Rightarrow> (string \<rightharpoonup> nat) \<Rightarrow> (string \<rightharpoonup> nat)" where
  "makeIdf_tokens [] seen df = df"
| "makeIdf_tokens (t # ts) seen df =
     (if t = [] \<or> t \<in> seen then makeIdf_tokens ts seen df
      else makeIdf_tokens ts (insert t seen)
             (df(t \<mapsto> (case df t of None \<Rightarrow> 0 | Some v \<Rightarrow> v) + 1)))"

fun makeIdf_docs :: "string list \<Rightarrow> (string \<rightharpoonup> nat) \<Rightarrow> (string \<rightharpoonup> nat)" where
  "makeIdf_docs [] df = df"
| "makeIdf_docs (d # docs) df = makeIdf_docs docs (makeIdf_tokens (lower_split d) {} df)"

definition makeIdf :: "string list \<Rightarrow> (string \<rightharpoonup> real)" where
  "makeIdf docs =
     (let N = length docs;
          df = makeIdf_docs docs Map.empty
      in (\<lambda>k. case df k of
                 None \<Rightarrow> None
               | Some v \<Rightarrow> Some (ln ((real N + 1) / (real v + 1)) + 1)))"

text \<open>\<open>idf.get(t) || 0.5\<close>: the default also replaces a stored 0.\<close>

definition idf_or_default :: "(string \<rightharpoonup> real) \<Rightarrow> string \<Rightarrow> real" where
  "idf_or_default idf t = (case idf t of None \<Rightarrow> 1 / 2 | Some v \<Rightarrow> if v = 0 then 1 / 2 else v)"

definition kwScore :: "string \<Rightarrow> string \<Rightarrow> (string \<rightharpoonup> real) \<Rightarrow> real" where
  "kwScore q txt idf =
     (let qt = filter (\<lambda>t. t \<noteq> []) (lower_split q);
          tt = toLowerCase txt
      in fold (\<lambda>t s. if includes_str tt t then s + idf_or_default idf t else s) qt 0)"

subsection \<open>Dot product and scores\<close>

text \<open>The loop of \<open>dot\<close> runs over the positions of \<open>a\<close>. Where \<open>b\<close> is shorter than \<open>a\<close> the
  source adds \<open>undefined\<close> products and returns NaN, which \<open>real\<close> does not have: \<open>b ! i\<close> is
  left unspecified there, and nothing below is evaluated on such vectors.\<close>

definition dot :: "vec \<Rightarrow> vec \<Rightarrow> real" where
  "dot a b = fold (\<lambda>i s. s + a ! i * b ! i) [0..<length a] 0"

text \<open>\<open>vectors[i]\<close>, which is \<open>undefined\<close> out of range, and \<open>dot\<close> on operands that may be
  \<open>undefined\<close>: reading \<open>a.length\<close>, or \<open>b[0]\<close> once the loop runs, throws a TypeError.\<close>

definition nth_opt :: "'a list \<Rightarrow> nat \<Rightarrow> 'a option" where
  "nth_opt xs i = (if i < length xs then Some (xs ! i) else None)"

fun dot_at :: "vec option \<Rightarrow> vec option \<Rightarrow> error + real" where
  "dot_at None b = Inl TypeError"
| "dot_at (Some a) None = (if a = [] then Inr 0 else Inl TypeError)"
| "dot_at (Some a) (Some b) = Inr (dot a b)"

type_synonym item = "nat \<times> real"

text \<open>The body of the scoring loop for chunk \<open>i\<close>.\<close>

definition fused_at :: "vec \<Rightarrow> real VectorIndex \<Rightarrow> string \<Rightarrow> (string \<rightharpoonup> real) \<Rightarrow> real \<Rightarrow> nat \<Rightarrow> error + real" where
  "fused_at qv index question idf alpha i =
     (case dot_at (Some qv) (nth_opt (vectors index) i) of
        Inl e \<Rightarrow> Inl e
      | Inr sem \<Rightarrow>
          (let kw = kwScore question (text_c (chunks index ! i)) idf;
               kwNorm = tanh (0.5 * kw);
               fused = alpha * sem + (1 - alpha) * kwNorm
           in Inr fused))"

fun score_loop :: "(nat \<Rightarrow> error + real) \<Rightarrow> nat list \<Rightarrow> item list \<Rightarrow> error + item list" where
  "score_loop f [] scored = Inr scored"
| "score_loop f (i # is) scored =
     (case f i of
        Inl e \<Rightarrow> Inl e
      | Inr fused \<Rightarrow> score_loop f is (scored @ [(i, fused)]))"

text \<open>\<open>xs.sort((a, b) => b.score - a.score)\<close>: the stable sort by descending score.\<close>

definition sort_desc :: "item list \<Rightarrow> item list" where
  "sort_desc xs = sort_key (\<lambda>it. - snd it) xs"

text \<open>\<open>items.find((it) => it.idx === i)!.score\<close>.\<close>

definition find_score :: "item list \<Rightarrow> nat \<Rightarrow> error + real" where
  "find_score items i =
     (case List.find (\<lambda>it. fst it = i) items of
        None \<Rightarrow> Inl TypeError
      | Some it \<Rightarrow> Inr (snd it))"

subsection \<open>Maximal marginal relevance\<close>

text \<open>A \<open>Set<number>\<close> is the list of its members in insertion order.\<close>

definition set_add :: "nat list \<Rightarrow> nat \<Rightarrow> nat list" where
  "set_add s x = (if x \<in> set s then s else s @ [x])"

definition set_from :: "nat list \<Rightarrow> nat list" where
  "set_from xs = fold (\<lambda>x s. set_add s x) xs []"

fun mmr_div :: "vec list \<Rightarrow> nat \<Rightarrow> nat list \<Rightarrow> real \<Rightarrow> error + real" where
  "mmr_div vs i [] dv = Inr dv"
| "mmr_div vs i (j # js) dv =
     (case dot_at (nth_opt vs i) (nth_opt vs j) of
        Inl e \<Rightarrow> Inl e
      | Inr d \<Rightarrow> mmr_div vs i js (max dv d))"

text \<open>The scan over the candidates. \<open>best\<close> and \<open>bestIdx\<close> are one optional pair: \<open>None\<close> is
  the start \<open>(-Infinity, -1)\<close>.\<close>

fun mmr_scan ::
  "item list \<Rightarrow> vec list \<Rightarrow> real \<Rightarrow> nat list \<Rightarrow> nat list \<Rightarrow> (real \<times> nat) option \<Rightarrow> error + (real \<times> nat) option" where
  "mmr_scan items vs lam selected [] best = Inr best"
| "mmr_scan items vs lam selected (i # cands) best =
     (case find_score items i of
        Inl e \<Rightarrow> Inl e
      | Inr rel \<Rightarrow>
          (case mmr_div vs i selected 0 of
             Inl e \<Rightarrow> Inl e
           | Inr dv \<Rightarrow>
               (let mmrScore = lam * rel - (1 - lam) * dv
                in mmr_scan items vs lam selected cands
                     (case best of
                        None \<Rightarrow> Some (mmrScore, i)
                      | Some (b, bi) \<Rightarrow> if mmrScore > b then Some (mmrScore, i) else best))))"

function mmr_loop ::
  "item list \<Rightarrow> vec list \<Rightarrow> nat \<Rightarrow> real \<Rightarrow> nat list \<Rightarrow> nat list \<Rightarrow> error + nat list" where
  "mmr_loop items vs K lam selected candidates =
     (if length selected < K \<and> candidates \<noteq> []
      then (case mmr_scan items vs lam selected candidates None of
              Inl e \<Rightarrow> Inl e
            | Inr None \<Rightarrow> Inr selected
            | Inr (Some (best, bestIdx)) \<Rightarrow>
                mmr_loop items vs K lam (selected @ [bestIdx]) (removeAll bestIdx candidates))
      else Inr selected)"
  by pat_completeness auto
termination
  by (relation "measure (\<lambda>(items, vs, K, lam, selected, candidates). K - length selected)") auto

definition mmr :: "item list \<Rightarrow> vec list \<Rightarrow> nat \<Rightarrow> real \<Rightarrow> error + nat list" where
  "mmr items vs K lam = mmr_loop items vs K lam [] (set_from (map fst items))"

subsection \<open>Neighbor expansion\<close>

text \<open>The loop over \<open>w\<close> for one picked chunk \<open>i\<close>; \<open>left >= 0\<close> is \<open>w \<le> i\<close>.\<close>

fun expand_w :: "Chunk list \<Rightarrow> nat \<Rightarrow> nat list \<Rightarrow> nat list \<Rightarrow> nat list" where
  "expand_w cs i [] s = s"
| "expand_w cs i (w # ws) s =
     (let s1 = (if w \<le> i \<and> source_path (cs ! (i - w)) = source_path (cs ! i)
                then set_add s (i - w) else s);
          s2 = (if i + w < length cs \<and> source_path (cs ! (i + w)) = source_path (cs ! i)
                then set_add s1 (i + w) else s1)
      in expand_w cs i ws s2)"

fun expand_picked :: "Chunk list \<Rightarrow> nat \<Rightarrow> nat list \<Rightarrow> nat list \<Rightarrow> nat list" where
  "expand_picked cs neighborWindow [] s = s"
| "expand_picked cs neighborWindow (i # picked) s =
     expand_picked cs neighborWindow picked
       (expand_w cs i [1..<Suc neighborWindow] (set_add s i))"

subsection \<open>\<open>retrieve\<close>\<close>

record ScoredChunk = Chunk +
  rank :: nat
  score :: real

text \<open>Steps 1 to 3: the query embedding and the fused score of every chunk.\<close>

definition retrieve_scored :: "real embed_client \<Rightarrow> real VectorIndex \<Rightarrow> string \<Rightarrow> real \<Rightarrow> error + item list" where
  "retrieve_scored client index question alpha =
     (case client (model index) [question] of
        Inl e \<Rightarrow> Inl e
      | Inr [] \<Rightarrow> Inl TypeError
      | Inr (qv # _) \<Rightarrow>
          (let idf = makeIdf (map text_c (chunks index))
           in score_loop (fused_at qv index question idf alpha) [0..<length (chunks index)] []))"

text \<open>Step 4: the sorted scores and the indices MMR selects among the first 40.\<close>

definition retrieve_picked ::
  "real embed_client \<Rightarrow> real VectorIndex \<Rightarrow> string \<Rightarrow> nat \<Rightarrow> real \<Rightarrow>
     error + item list \<times> nat list" where
  "retrieve_picked client index question topK alpha =
     (case retrieve_scored client index question alpha of
        Inl e \<Rightarrow> Inl e
      | Inr scored0 \<Rightarrow>
          (let scored = sort_desc scored0
           in case mmr (take 40 scored) (vectors index) topK 0.6 of
                Inl e \<Rightarrow> Inl e
              | Inr picked \<Rightarrow> Inr (scored, picked)))"

text \<open>Step 5 onwards, from the sorted scores and the picked indices.\<close>

fun attach_scores :: "item list \<Rightarrow> nat list \<Rightarrow> error + item list" where
  "attach_scores scored [] = Inr []"
| "attach_scores scored (i # is) =
     (case find_score scored i of
        Inl e \<Rightarrow> Inl e
      | Inr s \<Rightarrow> (case attach_scores scored is of
                    Inl e \<Rightarrow> Inl e
                  | Inr rest \<Rightarrow> Inr ((i, s) # rest)))"

definition to_hit :: "Chunk \<Rightarrow> real \<Rightarrow> ScoredChunk" where
  "to_hit c s = Chunk.extend c \<lparr>rank = 0, score = s\<rparr>"

definition retrieve ::
  "real embed_client \<Rightarrow> real VectorIndex \<Rightarrow> string \<Rightarrow> nat \<Rightarrow> nat \<Rightarrow> real \<Rightarrow>
     error + ScoredChunk list" where
  "retrieve client index question topK neighborWindow alpha =
     (case retrieve_picked client index question topK alpha of
        Inl e \<Rightarrow> Inl e
      | Inr (scored, picked) \<Rightarrow>
          (let withNeighbors = expand_picked (chunks index) neighborWindow picked []
           in case attach_scores scored withNeighbors of
                Inl e \<Rightarrow> Inl e
              | Inr pairs \<Rightarrow>
                  (let finalIdx = map fst (take (topK + 2) (sort_desc pairs))
                   in case attach_scores scored finalIdx of
                        Inl e \<Rightarrow> Inl e
                      | Inr final \<Rightarrow>
                          Inr (map (\<lambda>(i, s). to_hit (chunks index ! i) s) final))))"

subsection \<open>Reference formulas\<close>

text \<open>The quantities the scores are stated with: the tokens of the question in order, with
  repetitions; the number of documents that have a token; the weight of a token; the keyword
  sum over the tokens of the question, and the same sum over its distinct tokens.\<close>

definition query_tokens :: "string \<Rightarrow> string list" where
  "query_tokens q = filter (\<lambda>t. t \<noteq> []) (lower_split q)"

definition doc_freq :: "string list \<Rightarrow> string \<Rightarrow> nat" where
  "doc_freq docs t = length (filter (\<lambda>d. t \<in> set (lower_split d)) docs)"

definition idf_weight :: "string list \<Rightarrow> string \<Rightarrow> real" where
  "idf_weight docs t =
     (if 0 < doc_freq docs t
      then ln ((real (length docs) + 1) / (real (doc_freq docs t) + 1)) + 1
      else 1 / 2)"

definition kw_sum :: "string list \<Rightarrow> string \<Rightarrow> string \<Rightarrow> real" where
  "kw_sum docs q txt =
     (\<Sum>t \<leftarrow> query_tokens q. if includes_str (toLowerCase txt) t then idf_weight docs t else 0)"

definition kw_sum_distinct :: "string list \<Rightarrow> string \<Rightarrow> string \<Rightarrow> real" where
  "kw_sum_distinct docs q txt =
     (\<Sum>t \<leftarrow> remdups (query_tokens q).
        if includes_str (toLowerCase txt) t then idf_weight docs t else 0)"

definition fused_score :: "real VectorIndex \<Rightarrow> vec \<Rightarrow> string \<Rightarrow> real \<Rightarrow> nat \<Rightarrow> real" where
  "fused_score index qv question alpha i =
     alpha * dot qv (vectors index ! i) +
     (1 - alpha) * tanh (0.5 * kw_sum (map text_c (chunks index)) question (text_c (chunks index ! i)))"

text \<open>The layout of the chunks in a built index: the chunks of one document are adjacent, and
  along them \<open>order\<close> rises by one.\<close>

fun layout_ok :: "Chunk list \<Rightarrow> bool" where
  "layout_ok [] = True"
| "layout_ok [c] = True"
| "layout_ok (c # d # cs) =
     ((if source_path c = source_path d then order d = order c + 1
       else source_path c \<notin> source_path ` set cs) \<and>
      layout_ok (d # cs))"

section \<open>Index builders\<close>

text \<open>What a build does to the file system, in order. \<open>fs.writeFile\<close> opens the file for
  writing, which empties it, and then writes the text: between the two the file holds
  text that is not the JSON value. \<open>fs.rename\<close> replaces the target in one step, and leaves
  the file system as it is when the two paths are the same. The operations themselves are
  taken to succeed.\<close>

datatype fs_op =
    Mkdir string
  | WriteFile string json
  | Rename string string

text \<open>The states the file system passes through while one operation runs, the last one
  being the state after it.\<close>

fun op_states :: "filesystem \<Rightarrow> fs_op \<Rightarrow> filesystem list" where
  "op_states fs (Mkdir d) = [fs]"
| "op_states fs (WriteFile p j) = [fs(p \<mapsto> NotJson []), fs(p \<mapsto> JsonText j)]"
| "op_states fs (Rename a b) = (if a = b then [fs] else [(fs(b := fs a))(a := None)])"

text \<open>All the states a reader can observe during a sequence of operations, the initial
  state first.\<close>

fun observable_states :: "filesystem \<Rightarrow> fs_op list \<Rightarrow> filesystem list" where
  "observable_states fs [] = [fs]"
| "observable_states fs (x # ops) =
     fs # butlast (op_states fs x) @ observable_states (last (op_states fs x)) ops"

text \<open>The embedding service as a build sees it: the answer to the call number \<open>n\<close> (counting
  the calls of the build from 0) for a model and a list of inputs.\<close>

type_synonym embed_service = "nat \<Rightarrow> double embed_client"

subsection \<open>The build script (scripts/build-index.ts)\<close>

definition EMBED_MODEL :: string where
  "EMBED_MODEL = ''text-embedding-3-large''"

definition BATCH :: nat where
  "BATCH = 64"

text \<open>\<open>l2\<close>: \<open>Math.sqrt(v.reduce((s, x) => s + x * x, 0)) || 1\<close>, then every coordinate divided
  by it.\<close>

definition l2 :: "dvec \<Rightarrow> dvec" where
  "l2 v =
     (let r = fsqrt (fold (\<lambda>x s. fadd s (fmul x x)) v (Fin 0));
          n = (if falsy r then Fin 1 else r)
      in map (\<lambda>x. fdiv x n) v)"

text \<open>\<open>embedWithRetry\<close>. An error of the service is \<open>ServiceError code\<close> with its status
  code; every other error has no code and is not retried. The loop is counted by \<open>i\<close>; the
  result comes with the number of calls made. The waiting between attempts is not modelled.\<close>

definition retriable :: "error \<Rightarrow> bool" where
  "retriable e = (case e of ServiceError code \<Rightarrow> code = 429 \<or> (500 \<le> code \<and> code < 600)
                          | _ \<Rightarrow> False)"

function embedWithRetry_from ::
  "embed_service \<Rightarrow> string list \<Rightarrow> nat \<Rightarrow> nat \<Rightarrow> nat \<Rightarrow> (error + dvec list) \<times> nat" where
  "embedWithRetry_from service inputs attempts i calls =
     (if i < attempts
      then (case service calls EMBED_MODEL inputs of
              Inr data \<Rightarrow> (Inr data, calls + 1)
            | Inl e \<Rightarrow>
                if \<not> retriable e \<or> i = attempts - 1 then (Inl e, calls + 1)
                else embedWithRetry_from service inputs attempts (i + 1) (calls + 1))
      else (Inl ThrownUndefined, calls))"
  by pat_completeness auto
termination
  by (relation "measure (\<lambda>(service, inputs, attempts, i, calls). attempts - i)") auto

declare embedWithRetry_from.simps [simp del]

definition embedWithRetry ::
  "embed_service \<Rightarrow> string list \<Rightarrow> nat \<Rightarrow> (error + dvec list) \<times> nat" where
  "embedWithRetry service inputs calls = embedWithRetry_from service inputs 4 0 calls"

text \<open>What the script reads from its surroundings: the result of \<open>listFiles(DOCS_DIR)\<close>,
  \<open>readTextGeneric\<close>, the embedding service, the target path, whether its directory exists,
  and Node's \<open>path.basename\<close> and \<open>path.dirname\<close>.\<close>

record build_env =
  env_files :: "string list"
  env_read :: "string \<Rightarrow> error + string"
  env_service :: embed_service
  env_index_file :: string
  env_dir_exists :: bool
  env_basename :: "string \<Rightarrow> string"
  env_dirname :: "string \<Rightarrow> string"

text \<open>The loop over the files that collects the chunks.\<close>

fun collect_chunks :: "build_env \<Rightarrow> string list \<Rightarrow> Chunk list \<Rightarrow> error + Chunk list" where
  "collect_chunks env [] cs = Inr cs"
| "collect_chunks env (f # fs) cs =
     (case env_read env f of
        Inl e \<Rightarrow> Inl e
      | Inr txt \<Rightarrow>
          if txt = [] \<or> trim txt = [] then collect_chunks env fs cs
          else (let parts = filter (\<lambda>c. length (text_c c) \<ge> MIN_CHARS_PER_CHUNK)
                              (chunkStructured_script (env_basename env) txt f
                                 CHUNK_CHAR_TARGET CHUNK_CHAR_OVERLAP)
                in collect_chunks env fs (cs @ parts)))"

text \<open>The loop over the batches: \<open>i\<close> advances by \<open>BATCH\<close>.\<close>

function embed_batches ::
  "embed_service \<Rightarrow> Chunk list \<Rightarrow> nat \<Rightarrow> nat \<Rightarrow> dvec list \<Rightarrow> error + dvec list" where
  "embed_batches service cs i calls vs =
     (if i < length cs
      then (case embedWithRetry service (map text_c (take BATCH (drop i cs))) calls of
              (Inl e, calls') \<Rightarrow> Inl e
            | (Inr data, calls') \<Rightarrow> embed_batches service cs (i + BATCH) calls' (vs @ map l2 data))
      else Inr vs)"
  by pat_completeness auto
termination
  by (relation "measure (\<lambda>(service, cs, i, calls, vs). length cs - i)") (auto simp: BATCH_def)

declare embed_batches.simps [simp del]

text \<open>The object \<open>out\<close> of \<open>main\<close>, or the error that ends the build before anything is
  written.\<close>

definition main_out :: "build_env \<Rightarrow> error + double VectorIndex" where
  "main_out env =
     (if env_files env = [] then Inl NoDocuments
      else (case collect_chunks env (env_files env) [] of
              Inl e \<Rightarrow> Inl e
            | Inr cs \<Rightarrow>
                if cs = [] then Inl NoUsableText
                else (case embed_batches (env_service env) cs 0 0 [] of
                        Inl e \<Rightarrow> Inl e
                      | Inr vs \<Rightarrow>
                          if length vs \<noteq> length cs
                          then Inl (VectorChunkMismatch (length vs) (length cs))
                          else Inr \<lparr>model = EMBED_MODEL,
                                    dim = (case vs of [] \<Rightarrow> 0 | v # _ \<Rightarrow> length v),
                                    chunks = cs,
                                    vectors = vs\<rparr>)))"

text \<open>\<open>INDEX_FILE.replace(/\.json$/i, ".tmp.json")\<close>.\<close>

definition ends_with_json :: "string \<Rightarrow> bool" where
  "ends_with_json p = (length p \<ge> 5 \<and> toLowerCase (drop (length p - 5) p) = ''.json'')"

definition tmp_path :: "string \<Rightarrow> string" where
  "tmp_path p = (if ends_with_json p then take (length p - 5) p @ ''.tmp.json'' else p)"

definition main :: "build_env \<Rightarrow> (error + unit) \<times> fs_op list" where
  "main env =
     (case main_out env of
        Inl e \<Rightarrow> (Inl e, [])
      | Inr out \<Rightarrow>
          (let dir = env_dirname env (env_index_file env);
               tmp = tmp_path (env_index_file env)
           in (Inr (),
               (if env_dir_exists env then [] else [Mkdir dir]) @
               [WriteFile tmp (index_json out), Rename tmp (env_index_file env)])))"

subsection \<open>\<open>buildIndexWeb\<close> (lib/rag/indexer.ts)\<close>

record IndexItem =
  item_id :: string
  item_source_path :: string
  item_source_name :: string
  chunk_index :: nat
  item_text :: "string option"
  embedding :: dvec

text \<open>What \<open>buildIndexWeb\<close> reads from its surroundings. The settings come from environment
  variables; \<open>web_batch\<close> is \<open>BATCH\<close>, which can be 0. \<open>web_now\<close> is the time stamp.\<close>

record web_env =
  web_files :: "string list"
  web_read :: "string \<Rightarrow> error + string"
  web_api_key :: bool
  web_service :: embed_service
  web_model :: string
  web_target :: nat
  web_overlap :: nat
  web_batch :: nat
  web_now :: string
  web_basename :: "string \<Rightarrow> string"
  web_dirname :: "string \<Rightarrow> string"
  web_sha1 :: "string \<Rightarrow> string"

text \<open>\<open>resp.data.forEach((d, j) => items.push(...))\<close> for the batch that starts at \<open>i\<close>.\<close>

definition batch_items ::
  "web_env \<Rightarrow> string \<Rightarrow> string \<Rightarrow> string list \<Rightarrow> nat \<Rightarrow> dvec list \<Rightarrow> IndexItem list" where
  "batch_items env f name slice i data =
     map (\<lambda>(j, d). \<lparr>item_id = web_sha1 env (f @ ''#'' @ decimal (i + j)),
                     item_source_path = f,
                     item_source_name = name,
                     chunk_index = i + j,
                     item_text = nth_opt slice j,
                     embedding = d\<rparr>)
         (zip [0..<length data] data)"

text \<open>The loop over the batches of one file. With \<open>BATCH = 0\<close> it does not advance, and runs
  until the service throws: not returning is the value \<open>None\<close>.\<close>

partial_function (option) web_batches ::
  "web_env \<Rightarrow> string \<Rightarrow> string \<Rightarrow> string list \<Rightarrow> nat \<Rightarrow> nat \<Rightarrow> IndexItem list \<Rightarrow>
     ((error + IndexItem list) \<times> nat) option" where
  "web_batches env f name cs i calls items =
     (if i < length cs
      then (let slice = take (web_batch env) (drop i cs)
            in case web_service env calls (web_model env) slice of
                 Inl e \<Rightarrow> Some (Inl e, calls + 1)
               | Inr data \<Rightarrow>
                   web_batches env f name cs (i + web_batch env) (calls + 1)
                     (items @ batch_items env f name slice i data))
      else Some (Inr items, calls))"

fun web_files_loop ::
  "web_env \<Rightarrow> string list \<Rightarrow> nat \<Rightarrow> IndexItem list \<Rightarrow> (error + IndexItem list) option" where
  "web_files_loop env [] calls items = Some (Inr items)"
| "web_files_loop env (f # fs) calls items =
     (case web_read env f of
        Inl e \<Rightarrow> Some (Inl e)
      | Inr raw \<Rightarrow>
          (let txt = trim raw
           in if txt = [] then web_files_loop env fs calls items
              else (let cs = smartChunk (web_sha1 env) txt (web_target env) (web_overlap env);
                        name = web_basename env f
                    in case web_batches env f name cs 0 calls items of
                         None \<Rightarrow> None
                       | Some (Inl e, calls') \<Rightarrow> Some (Inl e)
                       | Some (Inr items', calls') \<Rightarrow> web_files_loop env fs calls' items')))"

text \<open>The serialized \<open>RagIndex\<close>.\<close>

definition item_json :: "IndexItem \<Rightarrow> json" where
  "item_json it =
     JObj ([(''id'', JStr (item_id it)),
            (''source_path'', JStr (item_source_path it)),
            (''source_name'', JStr (item_source_name it)),
            (''chunk_index'', JNum (real (chunk_index it)))] @
           (case item_text it of None \<Rightarrow> [] | Some t \<Rightarrow> [(''text'', JStr t)]) @
           [(''embedding'', vec_json (embedding it))])"

definition ragindex_json :: "nat \<Rightarrow> IndexItem list \<Rightarrow> string \<Rightarrow> string \<Rightarrow> json" where
  "ragindex_json d items created_at docs_dir =
     JObj [(''dim'', JNum (real d)),
           (''items'', JArr (map item_json items)),
           (''created_at'', JStr created_at),
           (''docs_dir'', JStr docs_dir)]"

text \<open>The result is the returned summary \<open>(files, chunks, outFile)\<close> with the operations on
  the file system, or \<open>None\<close> when the build does not return.\<close>

definition buildIndexWeb ::
  "web_env \<Rightarrow> string \<Rightarrow> string \<Rightarrow> ((error + nat \<times> nat \<times> string) \<times> fs_op list) option" where
  "buildIndexWeb env docsDir outFile =
     (if web_files env = [] then Some (Inl NoIndexableFiles, [])
      else if \<not> web_api_key env then Some (Inl MissingApiKey, [])
      else (case web_files_loop env (web_files env) 0 [] of
              None \<Rightarrow> None
            | Some (Inl e) \<Rightarrow> Some (Inl e, [])
            | Some (Inr items) \<Rightarrow>
                (case items of
                   [] \<Rightarrow> Some (Inl NoTextualChunks, [])
                 | it # _ \<Rightarrow>
                     Some (Inr (length (web_files env), length items, outFile),
                           [Mkdir (web_dirname env outFile),
                            WriteFile outFile
                              (ragindex_json (length (embedding it)) items (web_now env) docsDir)]))))"

section \<open>Context assembly\<close>

record RagHit =
  h_rank :: nat
  h_score :: real
  h_source_name :: string
  h_source_path :: string
  h_text :: string

text \<open>\<open>Math.ceil(s.length / 4)\<close>.\<close>

definition roughTokenCount :: "string \<Rightarrow> int" where
  "roughTokenCount s = (int (length s) + 3) div 4"

text \<open>\<open>s.slice(0, n)\<close> for an integer \<open>n\<close>: a negative \<open>n\<close> counts from the end.\<close>

definition slice0 :: "string \<Rightarrow> int \<Rightarrow> string" where
  "slice0 s n = (if n < 0 then take (length s - nat (- n)) s else take (nat n) s)"

definition BLOCK_SEP :: string where
  "BLOCK_SEP = [CHR 0x0A, CHR 0x0A] @ ''---'' @ [CHR 0x0A, CHR 0x0A]"

subsection \<open>\<open>formatContextForPrompt\<close> (src/lib/rag/search.ts)\<close>

text \<open>The loop over \<open>hits\<close>; the state is \<open>used\<close> and \<open>picked\<close>, and \<open>break\<close> ends the recursion.\<close>

fun formatContextForPrompt_loop :: "RagHit list \<Rightarrow> int \<Rightarrow> int \<Rightarrow> RagHit list \<Rightarrow> RagHit list" where
  "formatContextForPrompt_loop [] budgetTokens used picked = picked"
| "formatContextForPrompt_loop (h # hits) budgetTokens used picked =
     (let t = roughTokenCount (h_text h)
      in if used + t \<le> budgetTokens
         then formatContextForPrompt_loop hits budgetTokens (used + t) (picked @ [h])
         else (let allowed = max 0 (budgetTokens - used) * 4
               in if allowed > 200
                  then picked @ [h\<lparr>h_text := slice0 (h_text h) allowed\<rparr>]
                  else picked))"

definition formatContextForPrompt :: "RagHit list \<Rightarrow> int \<Rightarrow> string \<times> RagHit list" where
  "formatContextForPrompt hits budgetTokens =
     (let picked = formatContextForPrompt_loop hits budgetTokens 0 [];
          blocks = map (\<lambda>p. ''['' @ h_source_name p @ '']'' @ [CHR 0x0A] @ h_text p) picked
      in (join BLOCK_SEP blocks, picked))"

subsection \<open>\<open>trimToRoughChars\<close> and \<open>formatContext\<close> (lib/rag/indexer.ts)\<close>

fun trimToRoughChars_loop :: "RagHit list \<Rightarrow> int \<Rightarrow> int \<Rightarrow> RagHit list \<Rightarrow> RagHit list" where
  "trimToRoughChars_loop [] charBudget used out = out"
| "trimToRoughChars_loop (p # arr) charBudget used out =
     (if used + int (length (h_text p)) \<le> charBudget
      then trimToRoughChars_loop arr charBudget (used + int (length (h_text p))) (out @ [p])
      else if charBudget - used > 200
           then out @ [p\<lparr>h_text := slice0 (h_text p) (charBudget - used)\<rparr>]
           else out)"

definition trimToRoughChars :: "RagHit list \<Rightarrow> int \<Rightarrow> RagHit list" where
  "trimToRoughChars arr charBudget = trimToRoughChars_loop arr charBudget 0 []"

definition formatContext :: "RagHit list \<Rightarrow> string" where
  "formatContext passages =
     join BLOCK_SEP (map (\<lambda>p. ''['' @ h_source_name p @ '']'' @ [CHR 0x0A] @ h_text p) passages)"

text \<open>The sizes the budgets are compared with: the estimated tokens and the characters of
  the passage texts. \<open>cut\<close> is a passage with its text cut to its first \<open>n\<close> characters.\<close>

definition tokens_of :: "RagHit list \<Rightarrow> int" where
  "tokens_of hs = (\<Sum>h \<leftarrow> hs. roughTokenCount (h_text h))"

definition chars_of :: "RagHit list \<Rightarrow> int" where
  "chars_of hs = (\<Sum>h \<leftarrow> hs. int (length (h_text h)))"

definition cut :: "RagHit \<Rightarrow> int \<Rightarrow> RagHit" where
  "cut h n = h\<lparr>h_text := take (nat n) (h_text h)\<rparr>"

section \<open>Predicates of the properties\<close>

text \<open>What the build script keeps: a chunk whose trimmed text is not empty and has at least
  \<open>MIN_CHARS_PER_CHUNK\<close> characters. What the chunker of src/lib/rag/chunk.ts keeps: a chunk
  whose trimmed text is not empty.\<close>

definition kept_by_script :: "Chunk \<Rightarrow> bool" where
  "kept_by_script c =
     (trim (text_c c) \<noteq> [] \<and> MIN_CHARS_PER_CHUNK \<le> length (trim (text_c c)))"

definition nonempty_text :: "Chunk \<Rightarrow> bool" where
  "nonempty_text c = (trim (text_c c) \<noteq> [])"

text \<open>A list of chunks with the counter \<open>order\<close>: the chunks are numbered from 0 up to the
  counter and all come from the document \<open>sp\<close>.\<close>

definition numbered :: "string \<Rightarrow> Chunk list \<times> nat \<Rightarrow> bool" where
  "numbered sp st = (map order (fst st) = [0..<snd st] \<and> (\<forall>c \<in> set (fst st). source_path c = sp))"

text \<open>The embeddings the service returns to some call.\<close>

definition service_answers :: "embed_service \<Rightarrow> dvec set" where
  "service_answers service = {e. \<exists>n m inputs data. service n m inputs = Inr data \<and> e \<in> set data}"

text \<open>The unit roundoff of binary64.\<close>

definition eps :: real where
  "eps = 2 powi (- 53)"

text \<open>A double that is zero or at least the smallest subnormal in magnitude (every result of
  an operation is), and a double of at least \<open>2 powi hmin\<close>, the square root of the smallest
  subnormal.\<close>

definition on_grid :: "double \<Rightarrow> bool" where
  "on_grid d = (case d of Fin r \<Rightarrow> r = 0 \<or> 2 powi (emin - 52) \<le> \<bar>r\<bar> | _ \<Rightarrow> True)"



text \<open>The embeddings on which \<open>l2\<close> neither overflows nor underflows: at most \<open>dmax\<close>
  coordinates, each a zero or of a magnitude from \<open>2 powi clo\<close> to \<open>2 powi chi\<close>, and not all
  of them zero. \<open>sq_sum\<close> is the exact sum of the squares of the coordinates.\<close>

definition dmax :: nat where
  "dmax = 2 ^ 20"

definition clo :: int where
  "clo = - 500"

definition chi :: int where
  "chi = 500"

fun scaled :: "double \<Rightarrow> bool" where
  "scaled (Fin r) = (r = 0 \<or> (2 powi clo \<le> \<bar>r\<bar> \<and> \<bar>r\<bar> \<le> 2 powi chi))"
| "scaled NegZero = True"
| "scaled d = False"

definition sq_sum :: "double list \<Rightarrow> real" where
  "sq_sum xs = (\<Sum>x \<leftarrow> xs. val x * val x)"

definition well_scaled :: "double list \<Rightarrow> bool" where
  "well_scaled e =
     (length e \<le> dmax \<and> (\<forall>x \<in> set e. scaled x) \<and> (\<exists>x \<in> set e. \<not> is_zero x))"

text \<open>\<open>v?.length\<close> is falsy: \<open>v\<close> is \<open>null\<close>, a boolean, a number, an empty string, an empty
  array, or an object without a truthy \<open>length\<close>. \<open>no_items j k\<close>: the value \<open>j\<close> has no
  property \<open>k\<close>, or one whose length is falsy.\<close>

fun no_length :: "json \<Rightarrow> bool" where
  "no_length JNull = True"
| "no_length (JBool b) = True"
| "no_length (JNum x) = True"
| "no_length (JStr s) = (s = [])"
| "no_length (JArr xs) = (xs = [])"
| "no_length (JObj kvs) = (\<not> truthy (map_of (rev kvs) ''length''))"

definition no_items :: "json \<Rightarrow> string \<Rightarrow> bool" where
  "no_items j k = (case get_prop j k of None \<Rightarrow> True | Some v \<Rightarrow> no_length v)"

section \<open>Example inputs\<close>

text \<open>Concrete passages and index files on which the definitions are evaluated below.\<close>

definition passage_short :: RagHit where
  "passage_short = \<lparr>h_rank = 1, h_score = 1, h_source_name = ''handbook-of-the-department.md'',
     h_source_path = ''/docs/handbook-of-the-department.md'', h_text = replicate 36 (CHR ''a'')\<rparr>"

definition passage_tiny :: RagHit where
  "passage_tiny = \<lparr>h_rank = 1, h_score = 1, h_source_name = ''handbook-of-the-department.md'',
     h_source_path = ''/docs/handbook-of-the-department.md'', h_text = ''abcd''\<rparr>"

definition passage_long :: RagHit where
  "passage_long = \<lparr>h_rank = 2, h_score = 1 / 2, h_source_name = ''notes.txt'',
     h_source_path = ''/docs/notes.txt'', h_text = replicate 300 (CHR ''b'')\<rparr>"

definition chunk_a0 :: Chunk where
  "chunk_a0 = \<lparr>id_c = ''a.md::0'', source_name = ''a.md'', source_path = ''/docs/a.md'',
     section_c = None, text_c = ''alpha'', order = 0\<rparr>"

definition chunk_a1 :: Chunk where
  "chunk_a1 = \<lparr>id_c = ''a.md::1'', source_name = ''a.md'', source_path = ''/docs/a.md'',
     section_c = Some ''Intro'', text_c = ''beta'', order = 1\<rparr>"

definition index_two_chunks_one_vector :: "double VectorIndex" where
  "index_two_chunks_one_vector =
     \<lparr>model = ''text-embedding-3-large'', dim = 2, chunks = [chunk_a0, chunk_a1],
      vectors = [[Fin 1, Fin 0]]\<rparr>"


definition index_wrong_dim :: "double VectorIndex" where
  "index_wrong_dim =
     \<lparr>model = ''text-embedding-3-large'', dim = 3, chunks = [chunk_a0, chunk_a1],
      vectors = [[Fin 1, Fin 0], [Fin 0, Fin 1]]\<rparr>"

definition doc_chunk :: "string \<Rightarrow> nat \<Rightarrow> string \<Rightarrow> Chunk" where
  "doc_chunk name n txt = \<lparr>id_c = name @ ''::'' @ decimal n, source_name = name,
     source_path = ''/docs/'' @ name, section_c = None, text_c = txt, order = n\<rparr>"

definition index_two_docs :: "real VectorIndex" where
  "index_two_docs = \<lparr>model = ''text-embedding-3-large'', dim = 2,
     chunks = [doc_chunk ''a.md'' 0 ''alpha'', doc_chunk ''a.md'' 1 ''beta'',
               doc_chunk ''b.md'' 0 ''gamma'', doc_chunk ''b.md'' 1 ''delta''],
     vectors = [[1, 0], [0, 1], [3 / 5, 4 / 5], [- 1, 0]]\<rparr>"

definition client_up :: "real embed_client" where
  "client_up m inputs = Inr [[0, 1]]"

definition index_orders_0_7_3 :: "real VectorIndex" where
  "index_orders_0_7_3 = \<lparr>model = ''text-embedding-3-large'', dim = 2,
     chunks = [doc_chunk ''a.md'' 0 ''alpha'', doc_chunk ''a.md'' 7 ''beta'',
               doc_chunk ''a.md'' 3 ''gamma''],
     vectors = [[1, 0], [0, 1], [0, 1]]\<rparr>"

definition stored_orders_0_7_3 :: "double VectorIndex" where
  "stored_orders_0_7_3 = \<lparr>model = ''text-embedding-3-large'', dim = 2,
     chunks = [doc_chunk ''a.md'' 0 ''alpha'', doc_chunk ''a.md'' 7 ''beta'',
               doc_chunk ''a.md'' 3 ''gamma''],
     vectors = [[Fin 1, Fin 0], [Fin 0, Fin 1], [Fin 0, Fin 1]]\<rparr>"

definition client_right :: "real embed_client" where
  "client_right m inputs = Inr [[1, 0]]"

definition index_cat :: "real VectorIndex" where
  "index_cat = \<lparr>model = ''text-embedding-3-large'', dim = 1,
     chunks = [doc_chunk ''pets.md'' 0 ''cat''], vectors = [[1]]\<rparr>"

definition client_one :: "real embed_client" where
  "client_one m inputs = Inr [[1]]"

definition sample_body :: string where
  "sample_body = ''Students in the part time track follow the same modules as full time students but spread them over four years instead of two.''"

definition sample_doc :: string where
  "sample_doc = ''# Stage'' @ NL @ sample_body"

definition read_sample :: "string \<Rightarrow> error + string" where
  "read_sample f = Inr sample_doc"

definition read_hi :: "string \<Rightarrow> error + string" where
  "read_hi f = Inr ''hi''"

definition service_34 :: embed_service where
  "service_34 n m inputs = Inr (map (\<lambda>t. [Fin 3, Fin 4]) inputs)"

definition parent_dir :: "string \<Rightarrow> string" where
  "parent_dir p = rev (drop 1 (dropWhile (\<lambda>c. c \<noteq> CHR ''/'') (rev p)))"

definition script_env :: build_env where
  "script_env = \<lparr>env_files = [''/docs/a.md''], env_read = read_sample, env_service = service_34,
     env_index_file = ''/idx/index.json'', env_dir_exists = True,
     env_basename = last_segment, env_dirname = parent_dir\<rparr>"

definition sample_chunk :: Chunk where
  "sample_chunk = \<lparr>id_c = ''a.md::0'', source_name = ''a.md'', source_path = ''/docs/a.md'',
       section_c = Some ''Stage'', text_c = sample_body, order = 0\<rparr>"

definition script_out :: "double VectorIndex" where
  "script_out = \<lparr>model = EMBED_MODEL, dim = 2, chunks = [sample_chunk],
     vectors = [[fdiv (Fin 3) (Fin 5), fdiv (Fin 4) (Fin 5)]]\<rparr>"

definition web_example :: web_env where
  "web_example = \<lparr>web_files = [''/docs/a.md''], web_read = read_hi, web_api_key = True,
     web_service = service_34, web_model = ''text-embedding-3-large'', web_target = 1800,
     web_overlap = 200, web_batch = 64, web_now = ''2025-01-01T00:00:00.000Z'',
     web_basename = last_segment, web_dirname = parent_dir, web_sha1 = id\<rparr>"

definition web_item :: IndexItem where
  "web_item = \<lparr>item_id = ''/docs/a.md#0'', item_source_path = ''/docs/a.md'',
     item_source_name = ''a.md'', chunk_index = 0, item_text = Some ''hi'',
     embedding = [Fin 3, Fin 4]\<rparr>"

section \<open>Properties\<close>

subsection \<open>Double arithmetic\<close>

subsubsection \<open>Rounding to an integer\<close>

lemma rhe_err: "\<bar>of_int (rhe y) - y\<bar> \<le> 1 / 2"
  unfolding rhe_def Let_def by (auto simp: abs_if) linarith+

lemma rhe_of_int [simp]: "rhe (of_int k) = k"
  by (simp add: rhe_def)

lemma rhe_floor: "\<lfloor>y\<rfloor> \<le> rhe y" "rhe y \<le> \<lfloor>y\<rfloor> + 1"
  unfolding rhe_def Let_def by auto

lemma rhe_ge: "of_int N \<le> y \<Longrightarrow> N \<le> rhe y"
proof -
  assume "of_int N \<le> y"
  then have "N \<le> \<lfloor>y\<rfloor>" by (simp add: le_floor_iff)
  with rhe_floor(1) [of y] show ?thesis by simp
qed

lemma rhe_le: "y \<le> of_int N \<Longrightarrow> rhe y \<le> N"
proof -
  assume a: "y \<le> of_int N"
  show ?thesis
  proof (cases "y = of_int N")
    case True
    then show ?thesis by simp
  next
    case False
    with a have "y < of_int N" by simp
    then have "\<lfloor>y\<rfloor> < N" by (simp add: floor_less_iff)
    with rhe_floor(2) [of y] show ?thesis by simp
  qed
qed

lemma rhe_small:
  assumes "\<bar>y\<bar> < 1 / 2"
  shows "rhe y = 0"
proof (cases "0 \<le> y")
  case True
  then have "\<lfloor>y\<rfloor> = 0" using assms by (simp add: floor_eq_iff)
  then show ?thesis using assms True by (simp add: rhe_def)
next
  case False
  then have "\<lfloor>y\<rfloor> = - 1" using assms by (simp add: floor_eq_iff)
  then show ?thesis using assms False by (simp add: rhe_def)
qed

subsubsection \<open>Rounding to a double\<close>

lemma ulp_pos: "0 < ulp x"
  by (simp add: ulp_def)


lemma round_real_err: "\<bar>round_real x - x\<bar> \<le> ulp x / 2"
proof -
  have "\<bar>of_int (rhe (x / ulp x)) - x / ulp x\<bar> * ulp x \<le> 1 / 2 * ulp x"
    using rhe_err [of "x / ulp x"] ulp_pos [of x] by (intro mult_right_mono) auto
  moreover have "\<bar>of_int (rhe (x / ulp x)) - x / ulp x\<bar> * ulp x = \<bar>round_real x - x\<bar>"
  proof -
    have "(of_int (rhe (x / ulp x)) - x / ulp x) * ulp x = round_real x - x"
      using ulp_pos [of x] by (simp add: round_real_def left_diff_distrib)
    then have "\<bar>round_real x - x\<bar> = \<bar>(of_int (rhe (x / ulp x)) - x / ulp x) * ulp x\<bar>"
      by simp
    also have "\<dots> = \<bar>of_int (rhe (x / ulp x)) - x / ulp x\<bar> * ulp x"
      using ulp_pos [of x] by (simp add: abs_mult)
    finally show ?thesis by simp
  qed
  ultimately show ?thesis by simp
qed

lemma round_real_0 [simp]: "round_real 0 = 0"
  using rhe_of_int [of 0] by (simp add: round_real_def)


lemma pow2_pos [simp]:
  "0 < (2::real) powi k" "\<not> (2::real) powi k \<le> 0" "\<not> (2::real) powi k < 0"
proof -
  show p: "0 < (2::real) powi k" by (rule zero_less_power_int) simp
  then show "\<not> (2::real) powi k \<le> 0" by (simp only: not_le)
  from p show "\<not> (2::real) powi k < 0" by (simp only: not_less less_imp_le)
qed

lemma pow2_less_iff: "(2::real) powi m < 2 powi n \<longleftrightarrow> m < n"
proof
  assume a: "(2::real) powi m < 2 powi n"
  show "m < n"
  proof (rule ccontr)
    assume "\<not> m < n"
    then have "n \<le> m" by simp
    then have "(2::real) powi n \<le> 2 powi m" by (rule power_int_increasing) simp
    with a show False by simp
  qed
next
  assume "m < n"
  then show "(2::real) powi m < 2 powi n" by (rule power_int_strict_increasing) simp
qed

lemma pow2_le_iff: "(2::real) powi m \<le> 2 powi n \<longleftrightarrow> m \<le> n"
  using pow2_less_iff [of n m] by (auto simp: not_less [symmetric])

text \<open>The exponent of a value in the normal range.\<close>

lemma expo_normal:
  assumes "2 powi emin \<le> \<bar>x\<bar>"
  shows "2 powi expo x \<le> \<bar>x\<bar>" "\<bar>x\<bar> < 2 powi (expo x + 1)" "emin \<le> expo x"
proof -
  have pos: "0 < \<bar>x\<bar>" using assms pow2_pos(1) [of emin] by linarith
  define k where "k = \<lfloor>log 2 \<bar>x\<bar>\<rfloor>"
  have k: "2 powr real_of_int k \<le> \<bar>x\<bar> \<and> \<bar>x\<bar> < 2 powr real_of_int (k + 1)"
    using floor_log_eq_powr_iff [of "\<bar>x\<bar>" 2 k] pos k_def by simp
  then have k': "2 powi k \<le> \<bar>x\<bar>" "\<bar>x\<bar> < 2 powi (k + 1)"
    by (simp_all add: powr_real_of_int' del: of_int_add)
  have "(2::real) powi (emin) < 2 powi (k + 1)" using assms k'(2) by linarith
  then have "emin < k + 1" by (simp add: pow2_less_iff)
  then have "expo x = k" by (simp add: expo_def k_def)
  with k' show "2 powi expo x \<le> \<bar>x\<bar>" "\<bar>x\<bar> < 2 powi (expo x + 1)" by simp_all
  show "emin \<le> expo x" by (simp add: expo_def)
qed

lemma expo_subnormal:
  assumes "\<bar>x\<bar> < 2 powi emin" "x \<noteq> 0"
  shows "expo x = emin"
proof -
  have pos: "0 < \<bar>x\<bar>" using assms by simp
  define k where "k = \<lfloor>log 2 \<bar>x\<bar>\<rfloor>"
  have k: "2 powr real_of_int k \<le> \<bar>x\<bar> \<and> \<bar>x\<bar> < 2 powr real_of_int (k + 1)"
    using floor_log_eq_powr_iff [of "\<bar>x\<bar>" 2 k] pos k_def by simp
  then have "2 powi k \<le> \<bar>x\<bar>" by (simp add: powr_real_of_int')
  with assms have "(2::real) powi k < 2 powi emin" by linarith
  then have "k < emin" by (simp add: pow2_less_iff)
  then show ?thesis by (simp add: expo_def k_def)
qed

lemma ulp_subnormal: "\<bar>x\<bar> < 2 powi emin \<Longrightarrow> x \<noteq> 0 \<Longrightarrow> ulp x = 2 powi (emin - 52)"
  by (simp add: ulp_def expo_subnormal)

lemma eps_pos: "0 < eps" "eps < 1"
  by (simp_all add: eps_def power_int_minus field_simps)

lemma expo_exact:
  assumes "2 powi e \<le> \<bar>x\<bar>" "\<bar>x\<bar> < 2 powi (e + 1)" "emin \<le> e"
  shows "expo x = e"
proof -
  have n: "2 powi emin \<le> \<bar>x\<bar>"
    using assms(1) pow2_le_iff [of emin e] assms(3) by linarith
  from expo_normal [OF n] have b: "2 powi expo x \<le> \<bar>x\<bar>" "\<bar>x\<bar> < 2 powi (expo x + 1)" by auto
  have "(2::real) powi e < 2 powi (expo x + 1)" using assms(1) b(2) by linarith
  then have 1: "e < expo x + 1" by (simp only: pow2_less_iff)
  have "(2::real) powi expo x < 2 powi (e + 1)" using assms(2) b(1) by linarith
  then have 2: "expo x < e + 1" by (simp only: pow2_less_iff)
  from 1 2 show ?thesis by simp
qed

lemma round_real_rel:
  assumes "2 powi emin \<le> \<bar>x\<bar>"
  shows "\<bar>round_real x - x\<bar> \<le> \<bar>x\<bar> * eps"
proof -
  have "ulp x / 2 = 2 powi expo x * eps"
  proof -
    have "ulp x = 2 powi (expo x + (- 52))" by (simp add: ulp_def)
    also have "\<dots> = 2 powi expo x * 2 powi (- 52)" by (subst power_int_add) simp_all
    finally show ?thesis by (simp add: eps_def power_int_minus field_simps)
  qed
  also have "\<dots> \<le> \<bar>x\<bar> * eps"
    using expo_normal(1) [OF assms] eps_pos(1) by (intro mult_right_mono) auto
  finally show ?thesis using round_real_err [of x] by linarith
qed

lemma emax_bound: "2 powi (emax - 1) * (1 + eps) < 2 powi emax"
proof -
  have "(2::real) powi emax = 2 powi ((emax - 1) + 1)" by simp
  also have "\<dots> = 2 powi (emax - 1) * 2" by (subst power_int_add) simp_all
  finally have e: "(2::real) powi emax = 2 powi (emax - 1) * 2" .
  have "(2::real) powi (emax - 1) * (1 + eps) < 2 powi (emax - 1) * 2"
    using eps_pos by (intro mult_strict_left_mono) auto
  with e show ?thesis by simp
qed

text \<open>In the normal range rounding has a relative error of at most \<open>eps\<close>.\<close>

lemma rnd_normal:
  assumes "2 powi emin \<le> \<bar>x\<bar>" "\<bar>x\<bar> \<le> 2 powi (emax - 1)"
  shows "\<exists>d. \<bar>d\<bar> \<le> eps \<and> rnd x = Fin (x * (1 + d))"
proof -
  have x0: "x \<noteq> 0" using assms(1) by auto
  define d where "d = (round_real x - x) / x"
  have r: "round_real x = x * (1 + d)" using x0 by (simp add: d_def field_simps)
  have "\<bar>d\<bar> = \<bar>round_real x - x\<bar> / \<bar>x\<bar>" by (simp add: d_def)
  also have "\<dots> \<le> eps"
    using round_real_rel [OF assms(1)] x0 by (simp add: field_simps)
  finally have d: "\<bar>d\<bar> \<le> eps" .
  have "\<bar>round_real x\<bar> = \<bar>x\<bar> * \<bar>1 + d\<bar>" by (simp add: r abs_mult)
  also have "\<dots> \<le> \<bar>x\<bar> * (1 + eps)"
    using d by (intro mult_left_mono) auto
  also have "\<dots> \<le> 2 powi (emax - 1) * (1 + eps)"
    using assms(2) eps_pos by (intro mult_right_mono) auto
  also have "\<dots> < 2 powi emax" by (rule emax_bound)
  finally have m: "\<bar>round_real x\<bar> < 2 powi emax" .
  have "1 + d > 0" using d eps_pos by (auto simp: abs_if split: if_splits)
  then have nz: "round_real x \<noteq> 0" using x0 r by simp
  have "rnd x = Fin (round_real x)"
    using m nz by (auto simp: rnd_def Let_def abs_if split: if_splits)
  with r d show ?thesis by auto
qed

text \<open>Rounding never goes below a power of two that the value reaches.\<close>

lemma round_real_ge_pow2:
  assumes "2 powi k \<le> y" "emin - 52 \<le> k"
  shows "2 powi k \<le> round_real y"
proof -
  have ypos: "0 < y" using assms(1) pow2_pos(1) [of k] by linarith
  have le: "k \<le> expo y \<or> (expo y = emin)"
  proof (cases "2 powi emin \<le> \<bar>y\<bar>")
    case True
    from expo_normal [OF True] have "y < 2 powi (expo y + 1)" using ypos by simp
    with assms(1) have "(2::real) powi k < 2 powi (expo y + 1)" by linarith
    then have "k < expo y + 1" by (simp only: pow2_less_iff)
    then show ?thesis by simp
  next
    case False
    then show ?thesis using expo_subnormal [of y] ypos by simp
  qed
  have lo: "expo y - 52 \<le> k \<or> 2 powi expo y \<le> y"
  proof (cases "2 powi emin \<le> \<bar>y\<bar>")
    case True
    from expo_normal [OF True] show ?thesis using ypos by simp
  next
    case False
    then have "expo y = emin" using expo_subnormal [of y] ypos by simp
    with assms(2) show ?thesis by simp
  qed
  show ?thesis
  proof (cases "expo y - 52 \<le> k")
    case True
    define n where "n = nat (k - (expo y - 52))"
    have kk: "k = (expo y - 52) + int n" using True by (simp add: n_def)
    have "(2::real) powi k = 2 powi (expo y - 52) * 2 ^ n"
      by (subst kk, subst power_int_add) (simp_all add: ulp_def)
    then have p: "(2::real) powi k = of_int (2 ^ n) * ulp y" by (simp add: ulp_def)
    then have "of_int (2 ^ n) * ulp y \<le> y" using assms(1) by simp
    then have "of_int (2 ^ n) \<le> y / ulp y" using ulp_pos [of y] by (simp add: field_simps)
    then have "2 ^ n \<le> rhe (y / ulp y)" by (rule rhe_ge)
    then have "real_of_int (2 ^ n) \<le> real_of_int (rhe (y / ulp y))" by linarith
    then have "real_of_int (2 ^ n) * ulp y \<le> real_of_int (rhe (y / ulp y)) * ulp y"
      using ulp_pos [of y] by (intro mult_right_mono) auto
    with p show ?thesis by (simp add: round_real_def)
  next
    case False
    with lo have n: "2 powi expo y \<le> y" by simp
    from False le have ke: "k \<le> expo y" 
      using assms(2) by auto
    have "(2::real) powi expo y = 2 powi ((expo y - 52) + 52)" by simp
    also have "\<dots> = 2 powi (expo y - 52) * 2 powi 52" by (subst power_int_add) simp_all
    finally have p: "(2::real) powi expo y = of_int (2 ^ 52) * ulp y" by (simp add: ulp_def)
    then have "of_int (2 ^ 52) * ulp y \<le> y" using n by simp
    then have "of_int (2 ^ 52) \<le> y / ulp y" using ulp_pos [of y] by (simp add: field_simps)
    then have "2 ^ 52 \<le> rhe (y / ulp y)" by (rule rhe_ge)
    then have "real_of_int (2 ^ 52) \<le> real_of_int (rhe (y / ulp y))" by linarith
    then have "real_of_int (2 ^ 52) * ulp y \<le> real_of_int (rhe (y / ulp y)) * ulp y"
      using ulp_pos [of y] by (intro mult_right_mono) auto
    with p have "2 powi expo y \<le> round_real y" by (simp add: round_real_def)
    moreover have "(2::real) powi k \<le> 2 powi expo y" using ke by (simp only: pow2_le_iff)
    ultimately show ?thesis by linarith
  qed
qed

lemma rnd_overflow: "2 powi emax \<le> x \<Longrightarrow> rnd x = PosInf"
  using round_real_ge_pow2 [of emax x] by (simp add: rnd_def Let_def emax_def emin_def)

lemma round_real_underflow:
  assumes "\<bar>x\<bar> < 2 powi (emin - 53)"
  shows "round_real x = 0"
proof (cases "x = 0")
  case True
  then show ?thesis by simp
next
  case False
  have "(2::real) powi (emin - 53) \<le> 2 powi emin" by (simp only: pow2_le_iff)
  with assms have s: "\<bar>x\<bar> < 2 powi emin" by linarith
  have u: "ulp x = 2 powi (emin - 52)" using s False by (rule ulp_subnormal)
  have "(2::real) powi (emin - 52) = 2 powi ((emin - 53) + 1)" by simp
  also have "\<dots> = 2 powi (emin - 53) * 2" by (subst power_int_add) simp_all
  finally have h: "(2::real) powi (emin - 53) = ulp x / 2" using u by simp
  have "\<bar>x / ulp x\<bar> < 1 / 2"
    using assms h ulp_pos [of x] by (simp add: field_simps abs_if split: if_splits)
  then have "rhe (x / ulp x) = 0" by (rule rhe_small)
  then show ?thesis by (simp add: round_real_def)
qed

lemma rnd_underflow: "0 \<le> x \<Longrightarrow> x < 2 powi (emin - 53) \<Longrightarrow> rnd x = Fin 0"
  using round_real_underflow [of x] by (simp add: rnd_def Let_def)

lemma rnd_0 [simp]: "rnd 0 = Fin 0"
  by (simp add: rnd_def)

subsubsection \<open>Sums of squares and their square roots\<close>





lemma special_on_grid [simp]: "on_grid NaN" "on_grid PosInf" "on_grid NegInf" "on_grid NegZero"
  by (simp_all add: on_grid_def)













lemma sum_sq_zero:
  assumes "\<forall>x \<in> set a. is_zero x"
  shows "sum_sq a = Fin 0"
proof -
  have "fold (\<lambda>x s. fadd s (fmul x x)) a (Fin 0) = Fin 0"
    using assms
  proof (induction a)
    case Nil
    then show ?case by simp
  next
    case (Cons x a)
    then have "is_zero x" by simp
    then have "fmul x x = Fin 0" by (cases x) (simp_all add: fmul_def signed_zero_def)
    then show ?case using Cons by (simp add: fadd_def signed_zero_def)
  qed
  then show ?thesis by (simp add: sum_sq_def)
qed

subsubsection \<open>The error of a normalization\<close>

text \<open>Every operation on values in the normal range multiplies the exact result by a factor
  between \<open>1 - eps\<close> and \<open>1 + eps\<close>; \<open>k\<close> operations in a row by a factor between the \<open>k\<close>-th
  powers.\<close>

lemma pow2_leI: "m \<le> n \<Longrightarrow> (2::real) powi m \<le> 2 powi n"
  by (simp only: pow2_le_iff)

lemma pow2_mult: "(2::real) powi m * 2 powi n = 2 powi (m + n)"
  by (subst power_int_add) simp_all

lemma pow2_double: "2 * (2::real) powi m = 2 powi (m + 1)"
  by (subst power_int_add) simp_all

lemma pow2_sqrt: "sqrt (2 powi (m + m)) = 2 powi m"
proof -
  have "(2::real) powi (m + m) = 2 powi m * 2 powi m" by (simp only: pow2_mult)
  then show ?thesis by (simp add: real_sqrt_mult)
qed

lemma one_eps_bounds: "0 < (1 - eps)" "(1 - eps) \<le> 1" "1 \<le> (1 + eps)" "(1 + eps) * (1 - eps) \<le> 1"
  using eps_pos by (simp_all add: algebra_simps)

lemma down_pow_ge: "1 - real k * eps \<le> (1 - eps) ^ k"
  using Bernoulli_inequality [of "- eps" k] eps_pos by (simp add: algebra_simps)

lemma up_down_pow_le: "(1 + eps) ^ k * (1 - eps) ^ k \<le> 1"
proof -
  have "(1 + eps) ^ k * (1 - eps) ^ k = ((1 + eps) * (1 - eps)) ^ k" by (simp add: power_mult_distrib)
  also have "\<dots> \<le> 1"
  proof (rule power_le_one)
    have "0 \<le> (1 + eps)" "0 \<le> (1 - eps)" using one_eps_bounds by simp_all
    then show "0 \<le> (1 + eps) * (1 - eps)" by (rule mult_nonneg_nonneg)
    show "(1 + eps) * (1 - eps) \<le> 1" by (rule one_eps_bounds(4))
  qed
  finally show ?thesis .
qed

lemma count_eps_small:
  assumes "k \<le> 4 * dmax"
  shows "real k * eps \<le> 2 powi (- 31)"
proof -
  have "real k \<le> real (4 * dmax)" using assms by (simp only: of_nat_le_iff)
  also have "\<dots> = 2 powi 22" by (simp add: dmax_def)
  finally have "real k * eps \<le> 2 powi 22 * eps" using eps_pos by (intro mult_right_mono) auto
  also have "\<dots> = 2 powi (- 31)" unfolding eps_def by (simp only: pow2_mult) simp
  finally show ?thesis .
qed

lemma pow31_half: "(2::real) powi (- 31) \<le> 1 / 2"
  by (simp add: power_int_minus field_simps)

lemma down_pow_half:
  assumes "k \<le> 4 * dmax"
  shows "1 / 2 \<le> (1 - eps) ^ k"
  using down_pow_ge [of k] count_eps_small [OF assms] pow31_half by linarith

lemma up_pow_two:
  assumes "k \<le> 4 * dmax"
  shows "(1 + eps) ^ k \<le> 2"
proof -
  have b: "1 / 2 \<le> (1 - eps) ^ k" using assms by (rule down_pow_half)
  have a: "0 \<le> (1 + eps) ^ k" using one_eps_bounds by simp
  have "(1 + eps) ^ k * (1 / 2) \<le> (1 + eps) ^ k * (1 - eps) ^ k" using a b by (rule mult_left_mono [rotated]) 
  with up_down_pow_le [of k] show ?thesis by simp
qed

lemma up_pow_mono: "j \<le> k \<Longrightarrow> (1 + eps) ^ j \<le> (1 + eps) ^ k"
  using one_eps_bounds by (intro power_increasing) auto

lemma down_pow_anti: "j \<le> k \<Longrightarrow> (1 - eps) ^ k \<le> (1 - eps) ^ j"
  using one_eps_bounds by (intro power_decreasing) auto

lemma scaled_iff:
  "scaled x \<longleftrightarrow> is_zero x \<or> (\<exists>r. x = Fin r \<and> 2 powi clo \<le> \<bar>r\<bar> \<and> \<bar>r\<bar> \<le> 2 powi chi)"
  by (cases x) auto

lemma sq_sum_simps [simp]:
  "sq_sum [] = 0" "sq_sum (xs @ [x]) = sq_sum xs + val x * val x"
  "sq_sum (x # xs) = val x * val x + sq_sum xs"
  by (simp_all add: sq_sum_def)

lemma sq_sum_nonneg: "0 \<le> sq_sum xs"
  by (induction xs) simp_all

lemma is_zero_val: "is_zero x \<Longrightarrow> val x = 0"
  by (cases x) simp_all

lemma sq_range:
  fixes r :: real
  assumes "2 powi clo \<le> \<bar>r\<bar>" "\<bar>r\<bar> \<le> 2 powi chi"
  shows "2 powi (clo + clo) \<le> r * r" "r * r \<le> 2 powi (chi + chi)"
proof -
  have p: "0 \<le> (2::real) powi clo" using pow2_pos(1) [of clo] by (rule less_imp_le)
  have "(2::real) powi clo * 2 powi clo \<le> \<bar>r\<bar> * \<bar>r\<bar>"
    using assms(1) assms(1) _ p by (rule mult_mono) simp
  then show "2 powi (clo + clo) \<le> r * r" by (simp only: pow2_mult abs_mult_self_eq)
  have "\<bar>r\<bar> * \<bar>r\<bar> \<le> 2 powi chi * 2 powi chi"
    using assms(2) assms(2) by (rule mult_mono) (use pow2_pos(1) [of chi] in simp_all)
  then show "r * r \<le> 2 powi (chi + chi)" by (simp only: pow2_mult abs_mult_self_eq)
qed

lemma scaled_sq:
  assumes "scaled x"
  shows "val x * val x = 0 \<or>
         (2 powi (clo + clo) \<le> val x * val x \<and> val x * val x \<le> 2 powi (chi + chi))"
  using assms sq_range by (auto simp: scaled_iff is_zero_val)

lemma sq_sum_range:
  assumes "\<forall>x \<in> set xs. scaled x"
  shows "0 \<le> sq_sum xs"
    and "sq_sum xs = 0 \<or> 2 powi (clo + clo) \<le> sq_sum xs"
    and "sq_sum xs \<le> real (length xs) * 2 powi (chi + chi)"
proof -
  show n: "0 \<le> sq_sum xs" for xs :: "double list"
    by (induction xs) simp_all
  show "sq_sum xs = 0 \<or> 2 powi (clo + clo) \<le> sq_sum xs"
    using assms
  proof (induction xs)
    case Nil
    then show ?case by simp
  next
    case (Cons x xs)
    then have "scaled x" by simp
    from scaled_sq [OF this] n [of xs] Cons show ?case
      by (auto simp: add_nonneg_eq_0_iff)
  qed
  show "sq_sum xs \<le> real (length xs) * 2 powi (chi + chi)"
    using assms
  proof (induction xs)
    case Nil
    then show ?case by simp
  next
    case (Cons x xs)
    then have "scaled x" by simp
    from scaled_sq [OF this] have "val x * val x \<le> 2 powi (chi + chi)"
      using pow2_pos(1) [of "chi + chi"] by (auto simp del: pow2_pos) 
    with Cons show ?case by (simp add: algebra_simps)
  qed
qed

lemma fmul_zero_self: "is_zero x \<Longrightarrow> fmul x x = Fin 0"
  by (cases x) (simp_all add: fmul_def signed_zero_def)

lemma fmul_scaled_self:
  assumes "2 powi clo \<le> \<bar>r\<bar>" "\<bar>r\<bar> \<le> 2 powi chi"
  shows "\<exists>d. \<bar>d\<bar> \<le> eps \<and> fmul (Fin r) (Fin r) = Fin (r * r * (1 + d))"
proof -
  have r0: "r \<noteq> 0" using assms(1) by auto
  have "2 powi emin \<le> (2::real) powi (clo + clo)"
    by (rule pow2_leI) (simp add: emin_def clo_def)
  then have 1: "2 powi emin \<le> \<bar>r * r\<bar>" using sq_range(1) [OF assms] by simp
  have "(2::real) powi (chi + chi) \<le> 2 powi (emax - 1)"
    by (rule pow2_leI) (simp add: emax_def chi_def)
  then have 2: "\<bar>r * r\<bar> \<le> 2 powi (emax - 1)" using sq_range(2) [OF assms] by simp
  from rnd_normal [OF 1 2] r0 show ?thesis by (simp add: fmul_def)
qed

lemma rel_bounds:
  assumes "\<bar>d\<bar> \<le> eps" "0 \<le> y"
  shows "(1 - eps) * y \<le> y * (1 + d)" "y * (1 + d) \<le> (1 + eps) * y"
proof -
  have "1 - eps \<le> 1 + d" "1 + d \<le> 1 + eps" using assms(1) by (auto simp: abs_if split: if_splits)
  then have "(1 - eps) * y \<le> (1 + d) * y" "(1 + d) * y \<le> (1 + eps) * y"
    using assms(2) by (auto intro: mult_right_mono)
  then show "(1 - eps) * y \<le> y * (1 + d)" "y * (1 + d) \<le> (1 + eps) * y" by (simp_all add: mult.commute)
qed

lemma fadd_nonneg:
  assumes "0 \<le> s" "0 \<le> p"
    and "s + p = 0 \<or> (2 powi emin \<le> s + p \<and> s + p \<le> 2 powi (emax - 1))"
  shows "\<exists>d. \<bar>d\<bar> \<le> eps \<and> fadd (Fin s) (Fin p) = Fin ((s + p) * (1 + d))"
proof (cases "s + p = 0")
  case True
  then have "s = 0" using assms(1,2) by linarith
  then have "fadd (Fin s) (Fin p) = Fin 0" using True by (simp add: fadd_def signed_zero_def)
  then have "\<bar>0::real\<bar> \<le> eps \<and> fadd (Fin s) (Fin p) = Fin ((s + p) * (1 + 0))"
    using True eps_pos by simp
  then show ?thesis by blast
next
  case False
  with assms(3) have r: "2 powi emin \<le> \<bar>s + p\<bar>" "\<bar>s + p\<bar> \<le> 2 powi (emax - 1)"
    using assms(1,2) by auto
  from rnd_normal [OF r] False show ?thesis by (simp add: fadd_def)
qed

lemma accumulate_bounds:
  assumes T: "0 \<le> T" and q: "0 \<le> q"
    and s: "(1 - eps) ^ k * T \<le> s" "s \<le> (1 + eps) ^ k * T"
    and p: "(1 - eps) * q \<le> p" "p \<le> (1 + eps) * q"
    and s': "(1 - eps) * (s + p) \<le> s'" "s' \<le> (1 + eps) * (s + p)"
  shows "(1 - eps) ^ (k + 2) * (T + q) \<le> s'" "s' \<le> (1 + eps) ^ (k + 2) * (T + q)"
proof -
  have B0: "0 \<le> (1 - eps)" and A0: "0 \<le> (1 + eps)" using one_eps_bounds by simp_all
  have "(1 - eps) ^ (k + 2) * (T + q) = (1 - eps) ^ (k + 2) * T + (1 - eps) ^ (k + 2) * q" by (simp add: algebra_simps)
  also have "\<dots> \<le> (1 - eps) ^ (k + 1) * T + (1 - eps) ^ 2 * q"
  proof (rule add_mono)
    show "(1 - eps) ^ (k + 2) * T \<le> (1 - eps) ^ (k + 1) * T"
      using T by (intro mult_right_mono down_pow_anti) auto
    show "(1 - eps) ^ (k + 2) * q \<le> (1 - eps) ^ 2 * q"
      using q by (intro mult_right_mono down_pow_anti) auto
  qed
  also have "\<dots> = (1 - eps) * ((1 - eps) ^ k * T + (1 - eps) * q)" by (simp add: algebra_simps power2_eq_square)
  also have "\<dots> \<le> (1 - eps) * (s + p)"
    using s(1) p(1) B0 by (intro mult_left_mono add_mono) auto
  also have "\<dots> \<le> s'" by (rule s'(1))
  finally show "(1 - eps) ^ (k + 2) * (T + q) \<le> s'" .
  have "s' \<le> (1 + eps) * (s + p)" by (rule s'(2))
  also have "\<dots> \<le> (1 + eps) * ((1 + eps) ^ k * T + (1 + eps) * q)"
    using s(2) p(2) A0 by (intro mult_left_mono add_mono) auto
  also have "\<dots> = (1 + eps) ^ (k + 1) * T + (1 + eps) ^ 2 * q" by (simp add: algebra_simps power2_eq_square)
  also have "\<dots> \<le> (1 + eps) ^ (k + 2) * T + (1 + eps) ^ (k + 2) * q"
  proof (rule add_mono)
    show "(1 + eps) ^ (k + 1) * T \<le> (1 + eps) ^ (k + 2) * T"
      using T by (intro mult_right_mono up_pow_mono) auto
    show "(1 + eps) ^ 2 * q \<le> (1 + eps) ^ (k + 2) * q"
      using q by (intro mult_right_mono up_pow_mono) auto
  qed
  also have "\<dots> = (1 + eps) ^ (k + 2) * (T + q)" by (simp add: algebra_simps)
  finally show "s' \<le> (1 + eps) ^ (k + 2) * (T + q)" .
qed

lemma square_product:
  assumes "scaled x"
  shows "\<exists>p. fmul x x = Fin p \<and> (1 - eps) * (val x * val x) \<le> p \<and> p \<le> (1 + eps) * (val x * val x)"
proof (cases "is_zero x")
  case True
  then show ?thesis by (simp add: fmul_zero_self is_zero_val)
next
  case False
  with assms obtain r where r: "x = Fin r" "2 powi clo \<le> \<bar>r\<bar>" "\<bar>r\<bar> \<le> 2 powi chi"
    by (auto simp: scaled_iff)
  from fmul_scaled_self [OF r(2,3)] obtain d where
    d: "\<bar>d\<bar> \<le> eps" "fmul (Fin r) (Fin r) = Fin (r * r * (1 + d))" by blast
  have "0 \<le> r * r" by simp
  from rel_bounds [OF d(1) this] d(2) r(1) show ?thesis by simp
qed

text \<open>The accumulated sum of squares of a scaled vector, against the exact sum.\<close>

lemma sum_sq_bounds:
  assumes "\<forall>x \<in> set xs. scaled x" "length xs \<le> dmax"
  shows "\<exists>s. sum_sq xs = Fin s \<and>
              (1 - eps) ^ (2 * length xs) * sq_sum xs \<le> s \<and> s \<le> (1 + eps) ^ (2 * length xs) * sq_sum xs"
  using assms
proof (induction xs rule: rev_induct)
  case Nil
  then show ?case by (simp add: sum_sq_def)
next
  case (snoc x xs)
  let ?k = "2 * length xs"
  let ?T = "sq_sum xs"
  let ?q = "val x * val x"
  have sc: "\<forall>x \<in> set xs. scaled x" "scaled x" and len: "length xs \<le> dmax" "length xs < dmax"
    using snoc.prems by simp_all
  from snoc.IH [OF sc(1) len(1)] obtain s where
    s: "sum_sq xs = Fin s" "(1 - eps) ^ ?k * ?T \<le> s" "s \<le> (1 + eps) ^ ?k * ?T" by blast
  from square_product [OF sc(2)] obtain p where
    p: "fmul x x = Fin p" "(1 - eps) * ?q \<le> p" "p \<le> (1 + eps) * ?q" by blast
  have T0: "0 \<le> ?T" using sq_sum_range(1) [OF sc(1)] .
  have q0: "0 \<le> ?q" by simp
  have k: "?k \<le> 4 * dmax" using len by simp
  have B0: "0 \<le> (1 - eps)" and A0: "0 \<le> (1 + eps)" using one_eps_bounds by simp_all
  have s0: "0 \<le> s"
  proof -
    have "0 \<le> (1 - eps) ^ ?k * ?T" using B0 T0 by simp
    with s(2) show ?thesis by linarith
  qed
  have p0: "0 \<le> p"
  proof -
    have "0 \<le> (1 - eps) * ?q" using B0 q0 by (rule mult_nonneg_nonneg)
    with p(2) show ?thesis by linarith
  qed
  have s_lo: "s = 0 \<or> 2 powi (clo + clo - 1) \<le> s"
  proof (cases "?T = 0")
    case True
    with s(2,3) show ?thesis by simp
  next
    case False
    with sq_sum_range(2) [OF sc(1)] have t: "2 powi (clo + clo) \<le> ?T" by simp
    have "(2::real) powi (clo + clo - 1) * 2 = 2 powi (clo + clo)"
      using pow2_double [of "clo + clo - 1"] by (simp add: mult.commute)
    then have "2 powi (clo + clo - 1) \<le> 1 / 2 * ?T" using t by simp
    also have "\<dots> \<le> (1 - eps) ^ ?k * ?T"
      using down_pow_half [OF k] T0 by (intro mult_right_mono) auto
    finally show ?thesis using s(2) by simp
  qed
  have s_hi: "s \<le> 2 powi (chi + chi + 21)"
  proof -
    have "s \<le> (1 + eps) ^ ?k * ?T" by (rule s(3))
    also have "\<dots> \<le> 2 * ?T" using up_pow_two [OF k] T0 by (intro mult_right_mono) auto
    also have "\<dots> \<le> 2 * (real (length xs) * 2 powi (chi + chi))"
      using sq_sum_range(3) [OF sc(1)] by simp
    also have "\<dots> \<le> 2 * (2 powi 20 * 2 powi (chi + chi))"
    proof -
      have "real (length xs) \<le> real dmax" using len by simp
      also have "\<dots> = 2 powi 20" by (simp add: dmax_def)
      finally have "real (length xs) * 2 powi (chi + chi) \<le> 2 powi 20 * 2 powi (chi + chi)"
        by (intro mult_right_mono) auto
      then show ?thesis by simp
    qed
    also have "\<dots> = 2 powi (chi + chi + 21)"
      by (simp only: pow2_mult pow2_double) (simp add: algebra_simps)
    finally show ?thesis .
  qed
  have p_lo: "p = 0 \<or> 2 powi (clo + clo - 1) \<le> p"
  proof (cases "?q = 0")
    case True
    with p(2,3) show ?thesis by simp
  next
    case False
    with scaled_sq [OF sc(2)] have t: "2 powi (clo + clo) \<le> ?q" by simp
    have "(2::real) powi (clo + clo - 1) * 2 = 2 powi (clo + clo)"
      using pow2_double [of "clo + clo - 1"] by (simp add: mult.commute)
    then have "2 powi (clo + clo - 1) \<le> 1 / 2 * ?q" using t by simp
    also have "\<dots> \<le> (1 - eps) * ?q"
      using down_pow_half [of 1] q0 by (intro mult_right_mono) (auto simp: dmax_def)
    finally show ?thesis using p(2) by simp
  qed
  have p_hi: "p \<le> 2 powi (chi + chi + 1)"
  proof -
    have "?q \<le> 2 powi (chi + chi)"
      using scaled_sq [OF sc(2)] pow2_pos(1) [of "chi + chi"] by (auto simp del: pow2_pos)
    then have "2 * ?q \<le> 2 * 2 powi (chi + chi)" by simp
    then have "2 * ?q \<le> 2 powi (chi + chi + 1)" by (simp only: pow2_double)
    moreover have "(1 + eps) * ?q \<le> 2 * ?q"
      using eps_pos q0 by (intro mult_right_mono) auto
    ultimately show ?thesis using p(3) by linarith
  qed
  have rng: "s + p = 0 \<or> (2 powi emin \<le> s + p \<and> s + p \<le> 2 powi (emax - 1))"
  proof (cases "s + p = 0")
    case True
    then show ?thesis by simp
  next
    case False
    have e1: "(2::real) powi emin \<le> 2 powi (clo + clo - 1)"
      by (rule pow2_leI) (simp add: emin_def clo_def)
    have lo: "2 powi (clo + clo - 1) \<le> s + p"
      using False s_lo p_lo s0 p0 by auto
    have "(2::real) powi (chi + chi + 21) \<le> 2 powi (chi + chi + 21 + 1) - 2 powi (chi + chi + 1)"
    proof -
      have "(2::real) powi (chi + chi + 1) \<le> 2 powi (chi + chi + 21)" by (rule pow2_leI) simp
      moreover have "(2::real) powi (chi + chi + 21 + 1) = 2 * 2 powi (chi + chi + 21)"
        by (simp only: pow2_double)
      ultimately show ?thesis by linarith
    qed
    then have "s + p \<le> 2 powi (chi + chi + 21 + 1)" using s_hi p_hi by linarith
    moreover have "(2::real) powi (chi + chi + 21 + 1) \<le> 2 powi (emax - 1)"
      by (rule pow2_leI) (simp add: emax_def chi_def)
    ultimately show ?thesis using e1 lo by linarith
  qed
  from fadd_nonneg [OF s0 p0 rng] obtain d where
    d: "\<bar>d\<bar> \<le> eps" "fadd (Fin s) (Fin p) = Fin ((s + p) * (1 + d))" by blast
  have sp0: "0 \<le> s + p" using s0 p0 by simp
  define s' where "s' = (s + p) * (1 + d)"
  have s': "(1 - eps) * (s + p) \<le> s'" "s' \<le> (1 + eps) * (s + p)"
    unfolding s'_def using rel_bounds [OF d(1) sp0] by simp_all
  have res: "sum_sq (xs @ [x]) = Fin s'"
    using s(1) p(1) d(2) by (simp add: sum_sq_def s'_def)
  have b: "(1 - eps) ^ (?k + 2) * (?T + ?q) \<le> s'" "s' \<le> (1 + eps) ^ (?k + 2) * (?T + ?q)"
    using accumulate_bounds [OF T0 q0 s(2,3) p(2,3) s'] by simp_all
  have "2 * length (xs @ [x]) = ?k + 2" by simp
  with res b show ?case by (simp del: power_Suc)
qed

lemma sq_sum_member: "x \<in> set e \<Longrightarrow> val x * val x \<le> sq_sum e"
proof (induction e)
  case Nil
  then show ?case by simp
next
  case (Cons y e)
  show ?case
  proof (cases "x = y")
    case True
    then show ?thesis using sq_sum_nonneg [of e] by simp
  next
    case False
    with Cons have "val x * val x \<le> sq_sum e" by simp
    moreover have "0 \<le> val y * val y" by simp
    ultimately have "val x * val x \<le> val y * val y + sq_sum e" by linarith
    then show ?thesis by simp
  qed
qed

lemma sq_sum_pos:
  assumes "\<forall>x \<in> set e. scaled x" "\<exists>x \<in> set e. \<not> is_zero x"
  shows "2 powi (clo + clo) \<le> sq_sum e"
proof -
  from assms obtain x where x: "x \<in> set e" "\<not> is_zero x" "scaled x" by blast
  then obtain r where r: "x = Fin r" "2 powi clo \<le> \<bar>r\<bar>" by (auto simp: scaled_iff)
  then have "r \<noteq> 0" by auto
  then have "0 < r * r" by (cases "0 < r") (simp_all add: zero_less_mult_iff not_less)
  then have "0 < val x * val x" using r(1) by simp
  with sq_sum_member [OF x(1)] have "sq_sum e \<noteq> 0" by linarith
  with sq_sum_range(2) [OF assms(1)] show ?thesis by simp
qed

text \<open>The divisor \<open>n\<close> of \<open>l2\<close> on a scaled vector.\<close>

lemma l2_divisor:
  assumes "well_scaled e"
  shows "\<exists>v. fsqrt (sum_sq e) = Fin v \<and> 0 < v \<and>
              2 powi (clo - 2) \<le> v \<and> v \<le> 2 powi (chi + 12) \<and>
              (1 - eps) ^ (2 * length e + 2) * sq_sum e \<le> v * v \<and>
              v * v \<le> (1 + eps) ^ (2 * length e + 2) * sq_sum e"
proof -
  let ?k = "2 * length e"
  let ?T = "sq_sum e"
  from assms have sc: "\<forall>x \<in> set e. scaled x" and len: "length e \<le> dmax"
    and nz: "\<exists>x \<in> set e. \<not> is_zero x" by (simp_all add: well_scaled_def)
  from sum_sq_bounds [OF sc len] obtain s where
    s: "sum_sq e = Fin s" "(1 - eps) ^ ?k * ?T \<le> s" "s \<le> (1 + eps) ^ ?k * ?T" by blast
  have k: "?k \<le> 4 * dmax" using len by simp
  have B0: "0 \<le> (1 - eps)" and A0: "0 \<le> (1 + eps)" using one_eps_bounds by simp_all
  have T: "2 powi (clo + clo) \<le> ?T" using sq_sum_pos [OF sc nz] .
  have T0: "0 \<le> ?T" using sq_sum_range(1) [OF sc] .
  have s_lo: "2 powi (clo + clo - 1) \<le> s"
  proof -
    have "(2::real) powi (clo + clo - 1) * 2 = 2 powi (clo + clo)"
      using pow2_double [of "clo + clo - 1"] by (simp add: mult.commute)
    then have "2 powi (clo + clo - 1) \<le> 1 / 2 * ?T" using T by simp
    also have "\<dots> \<le> (1 - eps) ^ ?k * ?T"
      using down_pow_half [OF k] T0 by (intro mult_right_mono) auto
    finally show ?thesis using s(2) by simp
  qed
  have s_hi: "s \<le> 2 powi (chi + chi + 21)"
  proof -
    have "s \<le> (1 + eps) ^ ?k * ?T" by (rule s(3))
    also have "\<dots> \<le> 2 * ?T" using up_pow_two [OF k] T0 by (intro mult_right_mono) auto
    also have "\<dots> \<le> 2 * (real (length e) * 2 powi (chi + chi))"
      using sq_sum_range(3) [OF sc] by simp
    also have "\<dots> \<le> 2 * (2 powi 20 * 2 powi (chi + chi))"
    proof -
      have "real (length e) \<le> real dmax" using len by simp
      also have "\<dots> = 2 powi 20" by (simp add: dmax_def)
      finally have "real (length e) * 2 powi (chi + chi) \<le> 2 powi 20 * 2 powi (chi + chi)"
        by (intro mult_right_mono) auto
      then show ?thesis by simp
    qed
    also have "\<dots> = 2 powi (chi + chi + 21)"
      by (simp only: pow2_mult pow2_double) (simp add: algebra_simps)
    finally show ?thesis .
  qed
  have spos: "0 < s" using s_lo pow2_pos(1) [of "clo + clo - 1"] by (rule less_le_trans [rotated])
  have r_lo: "2 powi (clo - 1) \<le> sqrt s"
  proof -
    have "(2::real) powi ((clo - 1) + (clo - 1)) \<le> 2 powi (clo + clo - 1)"
      by (rule pow2_leI) simp
    then have "2 powi ((clo - 1) + (clo - 1)) \<le> s" using s_lo by linarith
    then have "sqrt (2 powi ((clo - 1) + (clo - 1))) \<le> sqrt s" by (rule real_sqrt_le_mono)
    then show ?thesis by (simp only: pow2_sqrt)
  qed
  have r_hi: "sqrt s \<le> 2 powi (chi + 11)"
  proof -
    have "(2::real) powi (chi + chi + 21) \<le> 2 powi ((chi + 11) + (chi + 11))"
      by (rule pow2_leI) simp
    then have "s \<le> 2 powi ((chi + 11) + (chi + 11))" using s_hi by linarith
    then have "sqrt s \<le> sqrt (2 powi ((chi + 11) + (chi + 11)))" by (rule real_sqrt_le_mono)
    then show ?thesis by (simp only: pow2_sqrt)
  qed
  have rpos: "0 < sqrt s" using spos by simp
  have n1: "2 powi emin \<le> \<bar>sqrt s\<bar>"
  proof -
    have "(2::real) powi emin \<le> 2 powi (clo - 1)"
      by (rule pow2_leI) (simp add: emin_def clo_def)
    with r_lo rpos show ?thesis by simp
  qed
  have n2: "\<bar>sqrt s\<bar> \<le> 2 powi (emax - 1)"
  proof -
    have "(2::real) powi (chi + 11) \<le> 2 powi (emax - 1)"
      by (rule pow2_leI) (simp add: emax_def chi_def)
    with r_hi rpos show ?thesis by simp
  qed
  from rnd_normal [OF n1 n2] obtain d where
    d: "\<bar>d\<bar> \<le> eps" "rnd (sqrt s) = Fin (sqrt s * (1 + d))" by blast
  define v where "v = sqrt s * (1 + d)"
  have vb: "(1 - eps) * sqrt s \<le> v" "v \<le> (1 + eps) * sqrt s"
    unfolding v_def using rel_bounds [OF d(1), of "sqrt s"] rpos by simp_all
  have f: "fsqrt (sum_sq e) = Fin v" using s(1) spos d(2) by (simp add: v_def)
  have half: "1 / 2 \<le> (1 - eps)" using down_pow_half [of 1] by (simp add: dmax_def)
  have v_lo: "2 powi (clo - 2) \<le> v"
  proof -
    have "(2::real) powi (clo - 2) * 2 = 2 powi (clo - 1)"
      using pow2_double [of "clo - 2"] by (simp add: mult.commute)
    then have "2 powi (clo - 2) \<le> 1 / 2 * sqrt s" using r_lo by simp
    also have "\<dots> \<le> (1 - eps) * sqrt s" using half rpos by (intro mult_right_mono) auto
    finally show ?thesis using vb(1) by linarith
  qed
  have vpos: "0 < v" using v_lo pow2_pos(1) [of "clo - 2"] by (rule less_le_trans [rotated])
  have v_hi: "v \<le> 2 powi (chi + 12)"
  proof -
    have "(1 + eps) * sqrt s \<le> 2 * sqrt s" using eps_pos rpos by (intro mult_right_mono) auto
    also have "\<dots> \<le> 2 * 2 powi (chi + 11)" using r_hi by simp
    also have "\<dots> = 2 powi (chi + 12)" by (simp only: pow2_double) (simp add: add.commute)
    finally show ?thesis using vb(2) by linarith
  qed
  have ss: "sqrt s * sqrt s = s" using spos by simp
  have "((1 - eps) * sqrt s) * ((1 - eps) * sqrt s) \<le> v * v"
  proof (rule mult_mono)
    show "(1 - eps) * sqrt s \<le> v" "(1 - eps) * sqrt s \<le> v" by (rule vb(1))+
    show "0 \<le> v" using vpos by simp
    show "0 \<le> (1 - eps) * sqrt s" using B0 rpos by simp
  qed
  moreover have "((1 - eps) * sqrt s) * ((1 - eps) * sqrt s) = (1 - eps) ^ 2 * (sqrt s * sqrt s)"
    by (simp add: power2_eq_square mult_ac)
  ultimately have "(1 - eps) ^ 2 * s \<le> v * v" using ss by simp
  moreover have "(1 - eps) ^ 2 * ((1 - eps) ^ ?k * ?T) \<le> (1 - eps) ^ 2 * s"
    using s(2) B0 by (intro mult_left_mono) auto
  moreover have "(1 - eps) ^ (?k + 2) * ?T = (1 - eps) ^ 2 * ((1 - eps) ^ ?k * ?T)" by (simp add: power_add power2_eq_square mult_ac)
  ultimately have lo: "(1 - eps) ^ (?k + 2) * ?T \<le> v * v" by linarith
  have "v * v \<le> ((1 + eps) * sqrt s) * ((1 + eps) * sqrt s)"
    using vb(2) vpos by (intro mult_mono) auto
  moreover have "((1 + eps) * sqrt s) * ((1 + eps) * sqrt s) = (1 + eps) ^ 2 * (sqrt s * sqrt s)"
    by (simp add: power2_eq_square mult_ac)
  ultimately have "v * v \<le> (1 + eps) ^ 2 * s" using ss by simp
  moreover have "(1 + eps) ^ 2 * s \<le> (1 + eps) ^ 2 * ((1 + eps) ^ ?k * ?T)"
    using s(3) A0 by (intro mult_left_mono) auto
  moreover have "(1 + eps) ^ (?k + 2) * ?T = (1 + eps) ^ 2 * ((1 + eps) ^ ?k * ?T)" by (simp add: power_add power2_eq_square mult_ac)
  ultimately have hi: "v * v \<le> (1 + eps) ^ (?k + 2) * ?T" by linarith
  from f vpos v_lo v_hi lo hi show ?thesis by blast
qed

lemma quotient_square:
  assumes "scaled x" "0 < v" "2 powi (clo - 2) \<le> v" "v \<le> 2 powi (chi + 12)"
  shows "(1 - eps) ^ 2 * (val x * val x) \<le> val (fdiv x (Fin v)) * val (fdiv x (Fin v)) * (v * v)"
    and "val (fdiv x (Fin v)) * val (fdiv x (Fin v)) * (v * v) \<le> (1 + eps) ^ 2 * (val x * val x)"
proof -
  have both: "(1 - eps) ^ 2 * (val x * val x) \<le> val (fdiv x (Fin v)) * val (fdiv x (Fin v)) * (v * v) \<and>
    val (fdiv x (Fin v)) * val (fdiv x (Fin v)) * (v * v) \<le> (1 + eps) ^ 2 * (val x * val x)"
  proof (cases "is_zero x")
    case True
    then have "val (fdiv x (Fin v)) = 0"
      using assms(2) by (cases x) (simp_all add: fdiv_def signed_zero_def)
    with True show ?thesis by (simp add: is_zero_val)
  next
    case False
    with assms(1) obtain r where r: "x = Fin r" "2 powi clo \<le> \<bar>r\<bar>" "\<bar>r\<bar> \<le> 2 powi chi"
      by (auto simp: scaled_iff)
    have r0: "r \<noteq> 0" using r(2) by auto
    have q: "\<bar>r / v\<bar> = \<bar>r\<bar> / v" using assms(2) by simp
    have n1: "2 powi emin \<le> \<bar>r / v\<bar>"
    proof -
      have "(2::real) powi emin * 2 powi (chi + 12) \<le> 2 powi clo"
        by (simp only: pow2_mult, rule pow2_leI) (simp add: emin_def chi_def clo_def)
      moreover have "2 powi emin * v \<le> 2 powi emin * 2 powi (chi + 12)"
        using assms(4) by (intro mult_left_mono) auto
      ultimately have "2 powi emin * v \<le> \<bar>r\<bar>" using r(2) by linarith
      then show ?thesis unfolding q using assms(2) by (simp add: field_simps)
    qed
    have n2: "\<bar>r / v\<bar> \<le> 2 powi (emax - 1)"
    proof -
      have "(2::real) powi chi \<le> 2 powi (emax - 1) * 2 powi (clo - 2)"
        by (simp only: pow2_mult, rule pow2_leI) (simp add: emax_def chi_def clo_def)
      moreover have "2 powi (emax - 1) * 2 powi (clo - 2) \<le> 2 powi (emax - 1) * v"
        using assms(3) by (intro mult_left_mono) auto
      ultimately have "\<bar>r\<bar> \<le> 2 powi (emax - 1) * v" using r(3) by linarith
      then show ?thesis unfolding q using assms(2) by (simp add: field_simps)
    qed
    from rnd_normal [OF n1 n2] obtain d where
      d: "\<bar>d\<bar> \<le> eps" "rnd (r / v) = Fin (r / v * (1 + d))" by blast
    have f: "val (fdiv x (Fin v)) = r / v * (1 + d)"
      using r(1) r0 assms(2) d(2) by (simp add: fdiv_def)
    have e: "val (fdiv x (Fin v)) * val (fdiv x (Fin v)) * (v * v) = (1 + d) * (1 + d) * (r * r)"
      unfolding f using assms(2) by (simp add: field_simps)
    have b: "(1 - eps) \<le> 1 + d" "1 + d \<le> (1 + eps)" using d(1) by (auto simp: abs_if split: if_splits)
    have B0: "0 \<le> (1 - eps)" using one_eps_bounds by simp
    have "(1 - eps) * (1 - eps) \<le> (1 + d) * (1 + d)" using b(1) B0 by (intro mult_mono) auto
    then have 1: "(1 - eps) ^ 2 * (r * r) \<le> (1 + d) * (1 + d) * (r * r)"
      by (intro mult_right_mono) (auto simp: power2_eq_square)
    have "0 \<le> 1 + d" using b(1) B0 by linarith
    then have "(1 + d) * (1 + d) \<le> (1 + eps) * (1 + eps)" using b(2) by (intro mult_mono) auto
    then have 2: "(1 + d) * (1 + d) * (r * r) \<le> (1 + eps) ^ 2 * (r * r)"
      by (intro mult_right_mono) (auto simp: power2_eq_square)
    from 1 2 e r(1) show ?thesis by simp
  qed
  from both show "(1 - eps) ^ 2 * (val x * val x) \<le> val (fdiv x (Fin v)) * val (fdiv x (Fin v)) * (v * v)"
    by (rule conjunct1)
  from both show "val (fdiv x (Fin v)) * val (fdiv x (Fin v)) * (v * v) \<le> (1 + eps) ^ 2 * (val x * val x)"
    by (rule conjunct2)
qed

lemma quotients_sum:
  assumes "\<forall>x \<in> set e. scaled x" "0 < v" "2 powi (clo - 2) \<le> v" "v \<le> 2 powi (chi + 12)"
  shows "(1 - eps) ^ 2 * sq_sum e \<le> sq_sum (map (\<lambda>x. fdiv x (Fin v)) e) * (v * v)"
    and "sq_sum (map (\<lambda>x. fdiv x (Fin v)) e) * (v * v) \<le> (1 + eps) ^ 2 * sq_sum e"
proof -
  show "(1 - eps) ^ 2 * sq_sum e \<le> sq_sum (map (\<lambda>x. fdiv x (Fin v)) e) * (v * v)"
    using assms(1)
  proof (induction e)
    case Nil
    then show ?case by simp
  next
    case (Cons x e)
    then have "scaled x" by simp
    from quotient_square(1) [OF this assms(2-4)] Cons show ?case
      by (simp add: algebra_simps)
  qed
  show "sq_sum (map (\<lambda>x. fdiv x (Fin v)) e) * (v * v) \<le> (1 + eps) ^ 2 * sq_sum e"
    using assms(1)
  proof (induction e)
    case Nil
    then show ?case by simp
  next
    case (Cons x e)
    then have "scaled x" by simp
    from quotient_square(2) [OF this assms(2-4)] Cons show ?case
      by (simp add: algebra_simps)
  qed
qed

lemma l2_scaled_unfold:
  assumes "fsqrt (sum_sq e) = Fin v" "0 < v"
  shows "l2 e = map (\<lambda>x. fdiv x (Fin v)) e"
  using assms by (simp add: l2_def Let_def sum_sq_def [symmetric] falsy_def)

lemma near_one:
  fixes Q :: real
  assumes d: "0 \<le> d" "d \<le> 1 / 2" and lo: "1 - d \<le> Q" and hi: "Q * (1 - d) \<le> 1"
  shows "\<bar>sqrt Q - 1\<bar> \<le> 2 * d"
proof -
  have "(1 - d)\<^sup>2 \<le> 1 - d"
  proof -
    have "(1 - d) * (1 - d) \<le> 1 * (1 - d)" using d by (intro mult_right_mono) auto
    then show ?thesis by (simp add: power2_eq_square)
  qed
  then have "(1 - d)\<^sup>2 \<le> Q" using lo by linarith
  then have 1: "1 - d \<le> sqrt Q" by (rule real_le_rsqrt)
  have "Q * (1 - d) \<le> (1 + 2 * d) * (1 - d)"
  proof -
    have "2 * (d * d) \<le> d"
    proof -
      have "d * d \<le> 1 / 2 * d" using d by (intro mult_right_mono) auto
      then show ?thesis by simp
    qed
    then have "1 \<le> (1 + 2 * d) * (1 - d)" by (simp add: algebra_simps)
    with hi show ?thesis by linarith
  qed
  then have "Q \<le> 1 + 2 * d" using d by (simp add: mult_le_cancel_right)
  moreover have "1 + 2 * d \<le> (1 + 2 * d)\<^sup>2"
  proof -
    have "1 * (1 + 2 * d) \<le> (1 + 2 * d) * (1 + 2 * d)" using d by (intro mult_right_mono) auto
    then show ?thesis by (simp add: power2_eq_square)
  qed
  ultimately have "Q \<le> (1 + 2 * d)\<^sup>2" by linarith
  then have 2: "sqrt Q \<le> 1 + 2 * d" using d by (intro real_le_lsqrt) auto
  from 1 2 d show ?thesis by (simp add: abs_if)
qed

text \<open>The normalized vector of a scaled embedding has norm 1 up to \<open>2 powi (- 30)\<close>.\<close>

lemma l2_norm_close:
  assumes "well_scaled e"
  shows "\<bar>sqrt (sq_sum (l2 e)) - 1\<bar> \<le> 2 powi (- 30)"
proof -
  let ?k = "2 * length e"
  let ?T = "sq_sum e"
  let ?Q = "sq_sum (l2 e)"
  from assms have sc: "\<forall>x \<in> set e. scaled x" and len: "length e \<le> dmax"
    and nz: "\<exists>x \<in> set e. \<not> is_zero x" by (simp_all add: well_scaled_def)
  from l2_divisor [OF assms] obtain v where
    v: "fsqrt (sum_sq e) = Fin v" "0 < v" "2 powi (clo - 2) \<le> v" "v \<le> 2 powi (chi + 12)"
       "(1 - eps) ^ (?k + 2) * ?T \<le> v * v" "v * v \<le> (1 + eps) ^ (?k + 2) * ?T" by blast
  have l: "l2 e = map (\<lambda>x. fdiv x (Fin v)) e" using v(1,2) by (rule l2_scaled_unfold)
  have q: "(1 - eps) ^ 2 * ?T \<le> ?Q * (v * v)" "?Q * (v * v) \<le> (1 + eps) ^ 2 * ?T"
    unfolding l using quotients_sum [OF sc v(2-4)] by simp_all
  have Tpos: "0 < ?T"
    using sq_sum_pos [OF sc nz] pow2_pos(1) [of "clo + clo"] by (rule less_le_trans [rotated])
  have Q0: "0 \<le> ?Q" by (rule sq_sum_nonneg)
  have B0: "0 \<le> (1 - eps)" and A0: "0 \<le> (1 + eps)" using one_eps_bounds by simp_all
  define K where "K = ?k + 4"
  have K: "K \<le> 4 * dmax" using len by (simp add: K_def dmax_def)
  have up: "?Q * (1 - eps) ^ K \<le> 1"
  proof -
    have "?Q * ((1 - eps) ^ (?k + 2) * ?T) \<le> ?Q * (v * v)" using v(5) Q0 by (rule mult_left_mono)
    also have "\<dots> \<le> (1 + eps) ^ 2 * ?T" by (rule q(2))
    finally have "(?Q * (1 - eps) ^ (?k + 2)) * ?T \<le> (1 + eps) ^ 2 * ?T" by (simp add: mult_ac)
    then have "?Q * (1 - eps) ^ (?k + 2) \<le> (1 + eps) ^ 2" using Tpos by (simp add: mult_le_cancel_right)
    then have "?Q * (1 - eps) ^ (?k + 2) * (1 - eps) ^ 2 \<le> (1 + eps) ^ 2 * (1 - eps) ^ 2"
      using B0 by (intro mult_right_mono) auto
    moreover have "(1 + eps) ^ 2 * (1 - eps) ^ 2 \<le> 1" by (rule up_down_pow_le)
    moreover have "(1 - eps) ^ (?k + 2) * (1 - eps) ^ 2 = (1 - eps) ^ K"
    proof -
      have "?k + 2 + 2 = K" by (simp add: K_def)
      then show ?thesis by (simp only: power_add [symmetric])
    qed
    then have "?Q * (1 - eps) ^ (?k + 2) * (1 - eps) ^ 2 = ?Q * (1 - eps) ^ K"
      by (simp only: mult.assoc)
    ultimately show ?thesis by linarith
  qed
  have down: "(1 - eps) ^ K \<le> ?Q"
  proof -
    have "(1 - eps) ^ 2 * ?T \<le> ?Q * (v * v)" by (rule q(1))
    also have "\<dots> \<le> ?Q * ((1 + eps) ^ (?k + 2) * ?T)" using v(6) Q0 by (rule mult_left_mono)
    finally have "(1 - eps) ^ 2 * ?T \<le> (?Q * (1 + eps) ^ (?k + 2)) * ?T" by (simp add: mult_ac)
    then have "(1 - eps) ^ 2 \<le> ?Q * (1 + eps) ^ (?k + 2)" using Tpos by (simp add: mult_le_cancel_right)
    then have "(1 - eps) ^ 2 * (1 - eps) ^ (?k + 2) \<le> ?Q * (1 + eps) ^ (?k + 2) * (1 - eps) ^ (?k + 2)"
      using B0 by (intro mult_right_mono) auto
    moreover have "?Q * (1 + eps) ^ (?k + 2) * (1 - eps) ^ (?k + 2) \<le> ?Q * 1"
      using up_down_pow_le [of "?k + 2"] Q0 by (simp only: mult.assoc) (rule mult_left_mono)
    moreover have "(1 - eps) ^ 2 * (1 - eps) ^ (?k + 2) = (1 - eps) ^ K"
    proof -
      have "2 + (?k + 2) = K" by (simp add: K_def)
      then show ?thesis by (simp only: power_add [symmetric])
    qed
    ultimately show ?thesis by simp
  qed
  define d :: real where "d = 2 powi (- 31)"
  have d: "0 \<le> d" "d \<le> 1 / 2" using pow31_half pow2_pos(1) [of "- 31"] by (simp_all add: d_def del: pow2_pos)
  have BK: "1 - d \<le> (1 - eps) ^ K" using down_pow_ge [of K] count_eps_small [OF K] by (simp add: d_def)
  have lo: "1 - d \<le> ?Q" using BK down by linarith
  have hi: "?Q * (1 - d) \<le> 1"
  proof -
    have "?Q * (1 - d) \<le> ?Q * (1 - eps) ^ K" using BK Q0 by (rule mult_left_mono)
    with up show ?thesis by linarith
  qed
  have "\<bar>sqrt ?Q - 1\<bar> \<le> 2 * d" using d lo hi by (rule near_one)
  also have "2 * d = 2 powi (- 30)" unfolding d_def by (simp only: pow2_double) simp
  finally show ?thesis .
qed

lemma pow30_millionth: "(2::real) powi (- 30) \<le> 1 / 10 ^ 6"
  by (simp add: power_int_minus field_simps)

subsubsection \<open>Values that are doubles\<close>

lemma round_real_grid_point:
  assumes "x = of_int m * ulp x"
  shows "round_real x = x"
proof -
  have "x / ulp x = of_int m" using assms ulp_pos [of x] by (simp add: field_simps)
  then show ?thesis using assms by (simp add: round_real_def)
qed

lemma rnd_exact:
  assumes "round_real x = x" "\<bar>x\<bar> < 2 powi emax" "x \<noteq> 0"
  shows "rnd x = Fin x"
  using assms by (auto simp: rnd_def Let_def abs_if split: if_splits)

text \<open>Integers below \<open>2 ^ 53\<close> in magnitude are doubles.\<close>

lemma rnd_of_int:
  assumes "\<bar>k\<bar> < 2 ^ 53"
  shows "rnd (of_int k) = Fin (of_int k)"
proof (cases "k = 0")
  case True
  then show ?thesis by simp
next
  case False
  let ?x = "real_of_int k"
  have one: "1 \<le> \<bar>?x\<bar>" using False by (simp add: abs_if)
  have "(2::real) powi emin \<le> 2 powi 0" by (rule pow2_leI) (simp add: emin_def)
  then have n: "2 powi emin \<le> \<bar>?x\<bar>" using one by simp
  have "\<bar>?x\<bar> < 2 ^ 53" using assms by (metis of_int_abs of_int_less_numeral_power_cancel_iff)
  then have lt: "\<bar>?x\<bar> < 2 powi 53" by simp
  from expo_normal [OF n] have "2 powi expo ?x \<le> \<bar>?x\<bar>" by simp
  with lt have "(2::real) powi expo ?x < 2 powi 53" by linarith
  then have e: "expo ?x < 53" by (simp only: pow2_less_iff)
  define j where "j = nat (52 - expo ?x)"
  have j: "52 - expo ?x = int j" using e by (simp add: j_def)
  have "ulp ?x * 2 ^ j = 2 powi (expo ?x - 52) * 2 powi (int j)" by (simp add: ulp_def)
  also have "\<dots> = 2 powi (expo ?x - 52 + int j)" by (simp only: pow2_mult)
  also have "\<dots> = 1"
  proof -
    have "expo ?x - 52 + int j = 0" using j by linarith
    then show ?thesis by simp
  qed
  finally have "ulp ?x * 2 ^ j = 1" .
  then have "?x = of_int (k * 2 ^ j) * ulp ?x" by (simp add: mult.assoc mult.commute)
  then have r: "round_real ?x = ?x" by (rule round_real_grid_point)
  have "(2::real) powi 53 \<le> 2 powi emax" by (rule pow2_leI) (simp add: emax_def)
  with lt have "\<bar>?x\<bar> < 2 powi emax" by linarith
  with r False show ?thesis by (intro rnd_exact) auto
qed

lemma rnd_numeral:
  "numeral n < (2::int) ^ 53 \<Longrightarrow> rnd (numeral n) = Fin (numeral n)"
  using rnd_of_int [of "numeral n"] by simp

lemma rnd_1 [simp]: "rnd 1 = Fin 1"
  using rnd_of_int [of 1] by simp

text \<open>Powers of two from the smallest subnormal to the largest binade are doubles.\<close>

lemma rnd_pow2:
  assumes "emin - 52 \<le> k" "k < emax"
  shows "rnd (2 powi k) = Fin (2 powi k)"
proof -
  let ?x = "(2::real) powi k"
  have pos: "0 < ?x" by simp
  have "round_real ?x = ?x"
  proof (cases "emin \<le> k")
    case True
    have "k < k + 1" by simp
    then have "?x < 2 powi (k + 1)" by (simp only: pow2_less_iff)
    then have e: "expo ?x = k" using True by (intro expo_exact) auto
    have "of_int (2 ^ 52) * ulp ?x = 2 powi 52 * 2 powi (k - 52)" by (simp add: ulp_def e)
    also have "\<dots> = ?x" by (simp only: pow2_mult) simp
    finally have "?x = of_int (2 ^ 52) * ulp ?x" by simp
    then show ?thesis by (rule round_real_grid_point)
  next
    case False
    then have "k < emin" by simp
    then have "?x < 2 powi emin" by (simp only: pow2_less_iff)
    then have u: "ulp ?x = 2 powi (emin - 52)" using ulp_subnormal [of ?x] by simp
    define j where "j = nat (k - (emin - 52))"
    have j: "k = emin - 52 + int j" using assms(1) by (simp add: j_def)
    have "of_int (2 ^ j) * ulp ?x = 2 powi (int j) * 2 powi (emin - 52)" by (simp add: u)
    also have "\<dots> = 2 powi (int j + (emin - 52))" by (simp only: pow2_mult)
    also have "\<dots> = ?x" using j by (simp add: add.commute)
    finally have "?x = of_int (2 ^ j) * ulp ?x" by simp
    then show ?thesis by (rule round_real_grid_point)
  qed
  moreover have "\<bar>?x\<bar> < 2 powi emax" using assms(2) by (simp add: pow2_less_iff)
  ultimately show ?thesis by (intro rnd_exact) auto
qed

text \<open>Rounding of a value whose binade is known.\<close>

lemma round_real_binade:
  assumes "2 powi e \<le> \<bar>x\<bar>" "\<bar>x\<bar> < 2 powi (e + 1)" "emin \<le> e"
  shows "round_real x = of_int (rhe (x * 2 powi (52 - e))) / 2 powi (52 - e)"
proof -
  have "expo x = e" using assms by (rule expo_exact)
  then have "ulp x = 2 powi (- (52 - e))" by (simp add: ulp_def)
  then have u: "ulp x = 1 / 2 powi (52 - e)" by (simp only: power_int_minus_divide)
  show ?thesis unfolding round_real_def u by simp
qed

text \<open>\<open>l2\<close> on a vector of zeros: the divisor is 1.\<close>

lemma l2_zero:
  assumes "\<forall>x \<in> set e. is_zero x"
  shows "l2 e = e"
proof -
  have "fsqrt (sum_sq e) = Fin 0" using sum_sq_zero [OF assms] by simp
  then have "l2 e = map (\<lambda>x. fdiv x (Fin 1)) e"
    by (simp add: l2_def Let_def sum_sq_def [symmetric] falsy_def)
  also have "\<dots> = map (\<lambda>x. x) e"
  proof (rule map_cong [OF refl])
    fix x assume "x \<in> set e"
    with assms have "is_zero x" by simp
    then show "fdiv x (Fin 1) = x" by (cases x) (simp_all add: fdiv_def signed_zero_def)
  qed
  finally show ?thesis by simp
qed

subsection \<open>cosineSim\<close>



lemma small_numerals:
  "rnd 5 = Fin 5" "rnd 9 = Fin 9" "rnd 12 = Fin 12" "rnd 16 = Fin 16" "rnd 24 = Fin 24"
  "rnd 25 = Fin 25"
  by (simp_all add: rnd_numeral)


lemma fsqrt_25: "fsqrt (Fin 25) = Fin 5"
  by (simp add: small_numerals)



lemma fmul_pow2_underflow:
  assumes "k + k < emin - 53"
  shows "fmul (Fin (2 powi k)) (Fin (2 powi k)) = Fin 0"
proof -
  have "(2::real) powi (k + k) < 2 powi (emin - 53)" using assms by (simp only: pow2_less_iff)
  then have "rnd (2 powi (k + k)) = Fin 0" by (intro rnd_underflow) auto
  then show ?thesis by (simp add: fmul_def pow2_mult)
qed

lemma fmul_pow2_overflow:
  assumes "emax \<le> k + k"
  shows "fmul (Fin (2 powi k)) (Fin (2 powi k)) = PosInf"
proof -
  have "(2::real) powi emax \<le> 2 powi (k + k)" using assms by (rule pow2_leI)
  then have "rnd (2 powi (k + k)) = PosInf" by (rule rnd_overflow)
  then show ?thesis by (simp add: fmul_def pow2_mult)
qed





subsection \<open>loadIndex\<close>




subsection \<open>Context assembly\<close>

lemma tokens_of_Cons [simp]: "tokens_of (h # hs) = roughTokenCount (h_text h) + tokens_of hs"
  by (simp add: tokens_of_def)

lemma tokens_of_Nil [simp]: "tokens_of [] = 0"
  by (simp add: tokens_of_def)

lemma chars_of_Cons [simp]: "chars_of (h # hs) = int (length (h_text h)) + chars_of hs"
  by (simp add: chars_of_def)

lemma chars_of_Nil [simp]: "chars_of [] = 0"
  by (simp add: chars_of_def)

lemma fcp_loop_acc:
  "formatContextForPrompt_loop hs b u pk = pk @ formatContextForPrompt_loop hs b u []"
proof (induction hs arbitrary: u pk)
  case Nil
  then show ?case by simp
next
  case (Cons h hs)
  show ?case
    using Cons.IH [of "u + roughTokenCount (h_text h)" "pk @ [h]"]
          Cons.IH [of "u + roughTokenCount (h_text h)" "[h]"]
    by (simp add: Let_def max_def)
qed

lemma roughTokenCount_take: "0 \<le> r \<Longrightarrow> roughTokenCount (take (nat (4 * r)) s) \<le> r"
  by (simp add: roughTokenCount_def min_def) linarith

lemma fcp_loop_shape:
  assumes "u \<le> b"
  shows "\<exists>k\<le>length hs.
           u + tokens_of (take k hs) \<le> b \<and>
           (k < length hs \<longrightarrow> b < u + tokens_of (take (Suc k) hs)) \<and>
           formatContextForPrompt_loop hs b u [] =
             take k hs @
             (if k < length hs \<and> 200 < 4 * (b - u - tokens_of (take k hs))
              then [cut (hs ! k) (4 * (b - u - tokens_of (take k hs)))] else [])"
  using assms
proof (induction hs arbitrary: u)
  case Nil
  then show ?case by simp
next
  case (Cons h hs)
  let ?t = "roughTokenCount (h_text h)"
  show ?case
  proof (cases "u + ?t \<le> b")
    case True
    from Cons.IH [OF True] obtain k where k: "k \<le> length hs"
      "u + ?t + tokens_of (take k hs) \<le> b"
      "k < length hs \<longrightarrow> b < u + ?t + tokens_of (take (Suc k) hs)"
      "formatContextForPrompt_loop hs b (u + ?t) [] =
         take k hs @
         (if k < length hs \<and> 200 < 4 * (b - (u + ?t) - tokens_of (take k hs))
          then [cut (hs ! k) (4 * (b - (u + ?t) - tokens_of (take k hs)))] else [])"
      by blast
    have eq: "formatContextForPrompt_loop (h # hs) b u [] =
                h # formatContextForPrompt_loop hs b (u + ?t) []"
      using True fcp_loop_acc [of hs b "u + ?t" "[h]"] by (simp add: Let_def)
    have "Suc k \<le> length (h # hs)" using k(1) by simp
    moreover have "u + tokens_of (take (Suc k) (h # hs)) \<le> b"
      using k(2) by (simp add: add.assoc)
    moreover have "Suc k < length (h # hs) \<longrightarrow> b < u + tokens_of (take (Suc (Suc k)) (h # hs))"
      using k(3) by (simp add: add.assoc)
    moreover have "formatContextForPrompt_loop (h # hs) b u [] =
             take (Suc k) (h # hs) @
             (if Suc k < length (h # hs) \<and> 200 < 4 * (b - u - tokens_of (take (Suc k) (h # hs)))
              then [cut ((h # hs) ! Suc k) (4 * (b - u - tokens_of (take (Suc k) (h # hs))))] else [])"
      unfolding eq k(4) by (simp add: algebra_simps)
    ultimately show ?thesis by blast
  next
    case False
    have "formatContextForPrompt_loop (h # hs) b u [] =
            (if 200 < 4 * (b - u) then [cut h (4 * (b - u))] else [])"
      using False Cons.prems by (simp add: Let_def cut_def slice0_def max_def mult.commute)
    then show ?thesis
      using False Cons.prems
      by (intro exI [of _ 0]) simp
  qed
qed

lemma ttrc_loop_acc:
  "trimToRoughChars_loop hs b u pk = pk @ trimToRoughChars_loop hs b u []"
proof (induction hs arbitrary: u pk)
  case Nil
  then show ?case by simp
next
  case (Cons h hs)
  show ?case
    using Cons.IH [of "u + int (length (h_text h))" "pk @ [h]"]
          Cons.IH [of "u + int (length (h_text h))" "[h]"]
    by simp
qed

lemma ttrc_loop_shape:
  assumes "u \<le> b"
  shows "\<exists>k\<le>length hs.
           u + chars_of (take k hs) \<le> b \<and>
           (k < length hs \<longrightarrow> b < u + chars_of (take (Suc k) hs)) \<and>
           trimToRoughChars_loop hs b u [] =
             take k hs @
             (if k < length hs \<and> 200 < b - u - chars_of (take k hs)
              then [cut (hs ! k) (b - u - chars_of (take k hs))] else [])"
  using assms
proof (induction hs arbitrary: u)
  case Nil
  then show ?case by simp
next
  case (Cons h hs)
  let ?t = "int (length (h_text h))"
  show ?case
  proof (cases "u + ?t \<le> b")
    case True
    from Cons.IH [OF True] obtain k where k: "k \<le> length hs"
      "u + ?t + chars_of (take k hs) \<le> b"
      "k < length hs \<longrightarrow> b < u + ?t + chars_of (take (Suc k) hs)"
      "trimToRoughChars_loop hs b (u + ?t) [] =
         take k hs @
         (if k < length hs \<and> 200 < b - (u + ?t) - chars_of (take k hs)
          then [cut (hs ! k) (b - (u + ?t) - chars_of (take k hs))] else [])"
      by blast
    have eq: "trimToRoughChars_loop (h # hs) b u [] =
                h # trimToRoughChars_loop hs b (u + ?t) []"
      using True ttrc_loop_acc [of hs b "u + ?t" "[h]"] by simp
    have "Suc k \<le> length (h # hs)" using k(1) by simp
    moreover have "u + chars_of (take (Suc k) (h # hs)) \<le> b"
      using k(2) by (simp add: add.assoc)
    moreover have "Suc k < length (h # hs) \<longrightarrow> b < u + chars_of (take (Suc (Suc k)) (h # hs))"
      using k(3) by (simp add: add.assoc)
    moreover have "trimToRoughChars_loop (h # hs) b u [] =
             take (Suc k) (h # hs) @
             (if Suc k < length (h # hs) \<and> 200 < b - u - chars_of (take (Suc k) (h # hs))
              then [cut ((h # hs) ! Suc k) (b - u - chars_of (take (Suc k) (h # hs)))] else [])"
      unfolding eq k(4) by (simp add: algebra_simps)
    ultimately show ?thesis by blast
  next
    case False
    have "trimToRoughChars_loop (h # hs) b u [] =
            (if 200 < b - u then [cut h (b - u)] else [])"
      using False Cons.prems by (simp add: cut_def slice0_def)
    then show ?thesis
      using False Cons.prems
      by (intro exI [of _ 0]) simp
  qed
qed


lemma roughTokenCount_nonneg: "0 \<le> roughTokenCount s"
  by (simp add: roughTokenCount_def)

lemma tokens_of_append [simp]: "tokens_of (xs @ ys) = tokens_of xs + tokens_of ys"
  by (simp add: tokens_of_def)

lemma chars_of_append [simp]: "chars_of (xs @ ys) = chars_of xs + chars_of ys"
  by (simp add: chars_of_def)

lemma tokens_of_cut: "0 \<le> r \<Longrightarrow> tokens_of [cut h (4 * r)] \<le> r"
  using roughTokenCount_take [of r "h_text h"] by (simp add: cut_def)

lemma chars_of_cut: "0 \<le> r \<Longrightarrow> chars_of [cut h r] \<le> r"
  by (simp add: cut_def)

text \<open>
  C4 (amended). For a budget that is not negative, both assemblers return the longest prefix
  of the ranked passages whose running size (estimated tokens for \<open>formatContextForPrompt\<close>,
  characters for \<open>trimToRoughChars\<close>) stays within the budget. The first passage that would
  overflow follows, cut to the remaining budget, only when the remaining budget is more than
  200 characters; otherwise it is dropped. Nothing after it is included. The total size of
  the returned passage texts never exceeds the budget; the \<open>[source_name]\<close> labels and the
  separators of the rendered context are not counted.
\<close>

theorem assemble_greedy_prefix_within_budget:
  assumes "0 \<le> budget"
  shows "(\<exists>k\<le>length hits.
            tokens_of (take k hits) \<le> budget \<and>
            (k < length hits \<longrightarrow> budget < tokens_of (take (Suc k) hits)) \<and>
            snd (formatContextForPrompt hits budget) =
              take k hits @
              (if k < length hits \<and> 200 < 4 * (budget - tokens_of (take k hits))
               then [cut (hits ! k) (4 * (budget - tokens_of (take k hits)))] else []) \<and>
            tokens_of (snd (formatContextForPrompt hits budget)) \<le> budget) \<and>
         (\<exists>k\<le>length hits.
            chars_of (take k hits) \<le> budget \<and>
            (k < length hits \<longrightarrow> budget < chars_of (take (Suc k) hits)) \<and>
            trimToRoughChars hits budget =
              take k hits @
              (if k < length hits \<and> 200 < budget - chars_of (take k hits)
               then [cut (hits ! k) (budget - chars_of (take k hits))] else []) \<and>
            chars_of (trimToRoughChars hits budget) \<le> budget)"
proof
  have "\<exists>k\<le>length hits.
           0 + tokens_of (take k hits) \<le> budget \<and>
           (k < length hits \<longrightarrow> budget < 0 + tokens_of (take (Suc k) hits)) \<and>
           formatContextForPrompt_loop hits budget 0 [] =
             take k hits @
             (if k < length hits \<and> 200 < 4 * (budget - 0 - tokens_of (take k hits))
              then [cut (hits ! k) (4 * (budget - 0 - tokens_of (take k hits)))] else [])"
    by (rule fcp_loop_shape [OF assms])
  then obtain k where k: "k \<le> length hits"
      "tokens_of (take k hits) \<le> budget"
      "k < length hits \<longrightarrow> budget < tokens_of (take (Suc k) hits)"
      "formatContextForPrompt_loop hits budget 0 [] =
         take k hits @
         (if k < length hits \<and> 200 < 4 * (budget - tokens_of (take k hits))
          then [cut (hits ! k) (4 * (budget - tokens_of (take k hits)))] else [])"
    unfolding add_0 diff_zero by blast
  have s: "snd (formatContextForPrompt hits budget) = formatContextForPrompt_loop hits budget 0 []"
    by (simp add: formatContextForPrompt_def Let_def)
  have "tokens_of (formatContextForPrompt_loop hits budget 0 []) \<le> budget"
    unfolding k(4) using k(2) tokens_of_cut [of "budget - tokens_of (take k hits)" "hits ! k"]
    by simp
  with k s show "\<exists>k\<le>length hits.
            tokens_of (take k hits) \<le> budget \<and>
            (k < length hits \<longrightarrow> budget < tokens_of (take (Suc k) hits)) \<and>
            snd (formatContextForPrompt hits budget) =
              take k hits @
              (if k < length hits \<and> 200 < 4 * (budget - tokens_of (take k hits))
               then [cut (hits ! k) (4 * (budget - tokens_of (take k hits)))] else []) \<and>
            tokens_of (snd (formatContextForPrompt hits budget)) \<le> budget"
    by metis
next
  have "\<exists>k\<le>length hits.
           0 + chars_of (take k hits) \<le> budget \<and>
           (k < length hits \<longrightarrow> budget < 0 + chars_of (take (Suc k) hits)) \<and>
           trimToRoughChars_loop hits budget 0 [] =
             take k hits @
             (if k < length hits \<and> 200 < budget - 0 - chars_of (take k hits)
              then [cut (hits ! k) (budget - 0 - chars_of (take k hits))] else [])"
    by (rule ttrc_loop_shape [OF assms])
  then obtain k where k: "k \<le> length hits"
      "chars_of (take k hits) \<le> budget"
      "k < length hits \<longrightarrow> budget < chars_of (take (Suc k) hits)"
      "trimToRoughChars_loop hits budget 0 [] =
         take k hits @
         (if k < length hits \<and> 200 < budget - chars_of (take k hits)
          then [cut (hits ! k) (budget - chars_of (take k hits))] else [])"
    unfolding add_0 diff_zero by blast
  have "chars_of (trimToRoughChars_loop hits budget 0 []) \<le> budget"
    unfolding k(4) using k(2) chars_of_cut [of "budget - chars_of (take k hits)" "hits ! k"]
    by simp
  with k show "\<exists>k\<le>length hits.
            chars_of (take k hits) \<le> budget \<and>
            (k < length hits \<longrightarrow> budget < chars_of (take (Suc k) hits)) \<and>
            trimToRoughChars hits budget =
              take k hits @
              (if k < length hits \<and> 200 < budget - chars_of (take k hits)
               then [cut (hits ! k) (budget - chars_of (take k hits))] else []) \<and>
            chars_of (trimToRoughChars hits budget) \<le> budget"
    unfolding trimToRoughChars_def by metis
qed

theorem assemble_witness:
  "(0::int) \<le> 60 \<and>
   snd (formatContextForPrompt [passage_short, passage_long] 60) =
     [passage_short, passage_long\<lparr>h_text := replicate 204 (CHR ''b'')\<rparr>] \<and>
   tokens_of (snd (formatContextForPrompt [passage_short, passage_long] 60)) \<le> 60 \<and>
   trimToRoughChars [passage_short, passage_long] 240 =
     [passage_short, passage_long\<lparr>h_text := replicate 204 (CHR ''b'')\<rparr>] \<and>
   chars_of (trimToRoughChars [passage_short, passage_long] 240) \<le> 240"
proof -
  have a: "snd (formatContextForPrompt [passage_short, passage_long] 60) =
     [passage_short, passage_long\<lparr>h_text := replicate 204 (CHR ''b'')\<rparr>]"
    by (simp add: formatContextForPrompt_def Let_def passage_short_def passage_long_def
        roughTokenCount_def slice0_def)
  have b: "trimToRoughChars [passage_short, passage_long] 240 =
     [passage_short, passage_long\<lparr>h_text := replicate 204 (CHR ''b'')\<rparr>]"
    by (simp add: trimToRoughChars_def passage_short_def passage_long_def slice0_def)
  have h: "(0::int) \<le> 60" "(0::int) \<le> 240" by simp_all
  from assemble_greedy_prefix_within_budget [OF h(1), of "[passage_short, passage_long]"]
  have c: "tokens_of (snd (formatContextForPrompt [passage_short, passage_long] 60)) \<le> 60"
    by blast
  from assemble_greedy_prefix_within_budget [OF h(2), of "[passage_short, passage_long]"]
  have d: "chars_of (trimToRoughChars [passage_short, passage_long] 240) \<le> 240"
    by blast
  show ?thesis using a b c d by simp
qed

text \<open>A passage of four characters fits a budget of one token (four characters) and is
  included whole. Nothing is cut, and the rendered context, with its \<open>[source_name]\<close> label,
  has 36 characters: more than twice the budget, where a cut slice is never longer than the
  budget.\<close>

theorem rendered_context_exceeds_budget:
  "snd (formatContextForPrompt [passage_tiny] 1) = [passage_tiny] \<and>
   length (fst (formatContextForPrompt [passage_tiny] 1)) = 36 \<and>
   \<not> roughTokenCount (fst (formatContextForPrompt [passage_tiny] 1)) \<le> 1 + 1 \<and>
   trimToRoughChars [passage_tiny] 4 = [passage_tiny] \<and>
   \<not> int (length (formatContext (trimToRoughChars [passage_tiny] 4))) \<le> 4 + 4"
  by (simp add: formatContextForPrompt_def formatContext_def trimToRoughChars_def Let_def
      passage_tiny_def roughTokenCount_def BLOCK_SEP_def)

subsection \<open>Index readers\<close>

lemma index_json_lengths:
  "opt_prop (opt_prop (Some (index_json idx)) ''vectors'') ''length'' =
     Some (JNum (real (length (vectors idx))))"
  "opt_prop (opt_prop (Some (index_json idx)) ''chunks'') ''length'' =
     Some (JNum (real (length (chunks idx))))"
  "get_prop (index_json idx) ''dim'' = Some (JNum (real (dim idx)))"
  "get_prop (index_json idx) ''vectors'' = Some (JArr (map vec_json (vectors idx)))"
  by (simp_all add: index_json_def)

lemma no_length_iff: "\<not> truthy (opt_prop (Some v) ''length'') \<longleftrightarrow> no_length v"
  by (cases v) simp_all

lemma no_items_iff:
  "\<not> truthy (opt_prop (opt_prop (Some j) k) ''length'') \<longleftrightarrow> no_items j k"
proof (cases "get_prop j k")
  case None
  then show ?thesis by (cases j) (simp_all add: no_items_def)
next
  case (Some v)
  then have "opt_prop (Some j) k = Some v" by (cases j) simp_all
  with Some show ?thesis by (simp add: no_items_def no_length_iff)
qed

lemma loadIndex_rejects_iff:
  assumes "memoIndex st = None"
  shows "(\<exists>e. fst (loadIndex path_resolve fs st p) = Inl e) \<longleftrightarrow>
         (case fs (path_resolve p) of
            None \<Rightarrow> True
          | Some (NotJson t) \<Rightarrow> True
          | Some (JsonText j) \<Rightarrow>
              no_items j ''vectors'' \<or> no_items j ''chunks'' \<or>
              (case get_prop j ''vectors'' of
                 None \<Rightarrow> True
               | Some v \<Rightarrow>
                   (case index0 v of
                      None \<Rightarrow> True
                    | Some JNull \<Rightarrow> True
                    | Some v0 \<Rightarrow> \<not> strict_eq (get_prop v0 ''length'') (get_prop j ''dim''))))"
  using assms
  by (auto simp: loadIndex_def loadIndex_read_def Let_def no_items_iff
      split: option.splits file_content.splits json.splits)

lemma getIndex_rejects_iff:
  assumes "cache rt = None"
  shows "(\<exists>e. fst (getIndex INDEX_FILE fs rt) = Inl e) \<longleftrightarrow>
         (case fs INDEX_FILE of
            None \<Rightarrow> True
          | Some (NotJson t) \<Rightarrow> True
          | Some (JsonText j) \<Rightarrow> no_items j ''chunks'' \<or> no_items j ''vectors'')"
  using assms
  by (auto simp: getIndex_def getIndex_read_def Let_def no_items_iff
      split: option.splits file_content.splits)

text \<open>
  C6 (amended). On its first load \<open>loadIndex\<close> raises exactly when the file cannot be read,
  does not hold JSON, or holds a value \<open>j\<close> such that \<open>j.vectors\<close> or \<open>j.chunks\<close> is missing
  or has a falsy length (\<open>no_items\<close>: for an array, it is empty), or \<open>j.vectors[0]\<close> is
  \<open>undefined\<close> or \<open>null\<close>, or the length of \<open>j.vectors[0]\<close> is not \<open>j.dim\<close>. \<open>getIndex\<close> raises
  on its first load exactly when the file cannot be read, does not hold JSON, or \<open>j.chunks\<close>
  or \<open>j.vectors\<close> is missing or has a falsy length. On the object a build writes, that is:
  \<open>loadIndex\<close> raises exactly when \<open>vectors\<close> is empty, \<open>chunks\<close> is empty, or the length of
  \<open>vectors[0]\<close> differs from \<open>dim\<close>, and \<open>getIndex\<close> exactly when \<open>chunks\<close> or \<open>vectors\<close> is empty.
  Neither reader compares the number of chunks with the number of vectors.
\<close>

theorem readers_validate_nonempty_and_first_dim:
  "(memoIndex st = None \<longrightarrow>
      ((\<exists>e. fst (loadIndex path_resolve fs st p) = Inl e) \<longleftrightarrow>
         (case fs (path_resolve p) of
            None \<Rightarrow> True
          | Some (NotJson t) \<Rightarrow> True
          | Some (JsonText j) \<Rightarrow>
              no_items j ''vectors'' \<or> no_items j ''chunks'' \<or>
              (case get_prop j ''vectors'' of
                 None \<Rightarrow> True
               | Some v \<Rightarrow>
                   (case index0 v of
                      None \<Rightarrow> True
                    | Some JNull \<Rightarrow> True
                    | Some v0 \<Rightarrow> \<not> strict_eq (get_prop v0 ''length'') (get_prop j ''dim'')))))) \<and>
   (cache rt = None \<longrightarrow>
      ((\<exists>e. fst (getIndex INDEX_FILE fs rt) = Inl e) \<longleftrightarrow>
         (case fs INDEX_FILE of
            None \<Rightarrow> True
          | Some (NotJson t) \<Rightarrow> True
          | Some (JsonText j) \<Rightarrow> no_items j ''chunks'' \<or> no_items j ''vectors''))) \<and>
   (memoIndex st = None \<and> fs (path_resolve p) = Some (JsonText (index_json idx)) \<longrightarrow>
      ((\<exists>e. fst (loadIndex path_resolve fs st p) = Inl e) \<longleftrightarrow>
         (vectors idx = [] \<or> chunks idx = [] \<or> length (hd (vectors idx)) \<noteq> dim idx))) \<and>
   (cache rt = None \<and> fs INDEX_FILE = Some (JsonText (index_json idx)) \<longrightarrow>
      ((\<exists>e. fst (getIndex INDEX_FILE fs rt) = Inl e) \<longleftrightarrow>
         (chunks idx = [] \<or> vectors idx = [])))"
proof (intro conjI impI)
  assume "memoIndex st = None"
  then show "(\<exists>e. fst (loadIndex path_resolve fs st p) = Inl e) \<longleftrightarrow>
         (case fs (path_resolve p) of
            None \<Rightarrow> True
          | Some (NotJson t) \<Rightarrow> True
          | Some (JsonText j) \<Rightarrow>
              no_items j ''vectors'' \<or> no_items j ''chunks'' \<or>
              (case get_prop j ''vectors'' of
                 None \<Rightarrow> True
               | Some v \<Rightarrow>
                   (case index0 v of
                      None \<Rightarrow> True
                    | Some JNull \<Rightarrow> True
                    | Some v0 \<Rightarrow> \<not> strict_eq (get_prop v0 ''length'') (get_prop j ''dim''))))"
    by (rule loadIndex_rejects_iff)
next
  assume "cache rt = None"
  then show "(\<exists>e. fst (getIndex INDEX_FILE fs rt) = Inl e) \<longleftrightarrow>
         (case fs INDEX_FILE of
            None \<Rightarrow> True
          | Some (NotJson t) \<Rightarrow> True
          | Some (JsonText j) \<Rightarrow> no_items j ''chunks'' \<or> no_items j ''vectors'')"
    by (rule getIndex_rejects_iff)
next
  assume a: "memoIndex st = None \<and> fs (path_resolve p) = Some (JsonText (index_json idx))"
  show "(\<exists>e. fst (loadIndex path_resolve fs st p) = Inl e) \<longleftrightarrow>
         (vectors idx = [] \<or> chunks idx = [] \<or> length (hd (vectors idx)) \<noteq> dim idx)"
  proof (cases "vectors idx")
    case Nil
    then show ?thesis
      using a by (simp add: loadIndex_def loadIndex_read_def Let_def index_json_lengths)
  next
    case (Cons v vs)
    then show ?thesis
      using a
      by (simp add: loadIndex_def loadIndex_read_def Let_def index_json_lengths vec_json_def)
  qed
next
  assume a: "cache rt = None \<and> fs INDEX_FILE = Some (JsonText (index_json idx))"
  show "(\<exists>e. fst (getIndex INDEX_FILE fs rt) = Inl e) \<longleftrightarrow> (chunks idx = [] \<or> vectors idx = [])"
    using a by (simp add: getIndex_def getIndex_read_def Let_def index_json_lengths)
qed

text \<open>Both readers return an index with two chunks and one vector, and \<open>getIndex\<close> returns
  an index whose \<open>dim\<close> is not the length of its vectors.\<close>

theorem readers_accept_length_mismatch:
  "length (chunks index_two_chunks_one_vector) \<noteq> length (vectors index_two_chunks_one_vector) \<and>
   fst (loadIndex id [''index.json'' \<mapsto> JsonText (index_json index_two_chunks_one_vector)]
          \<lparr>memoIndex = None, reads = []\<rparr> ''index.json'') =
     Inr (index_json index_two_chunks_one_vector) \<and>
   fst (getIndex ''index.json'' [''index.json'' \<mapsto> JsonText (index_json index_two_chunks_one_vector)]
          \<lparr>cache = None, route_reads = []\<rparr>) =
     Inr (index_json index_two_chunks_one_vector) \<and>
   length (hd (vectors index_wrong_dim)) \<noteq> dim index_wrong_dim \<and>
   fst (getIndex ''index.json'' [''index.json'' \<mapsto> JsonText (index_json index_wrong_dim)]
          \<lparr>cache = None, route_reads = []\<rparr>) =
     Inr (index_json index_wrong_dim)"
  by (simp add: loadIndex_def loadIndex_read_def getIndex_def getIndex_read_def Let_def
      index_json_lengths vec_json_def index_two_chunks_one_vector_def index_wrong_dim_def)

theorem readers_validate_witness:
  "memoIndex \<lparr>memoIndex = None, reads = []\<rparr> = None \<and>
   [''index.json'' \<mapsto> JsonText (index_json index_wrong_dim)] (id ''index.json'') =
     Some (JsonText (index_json index_wrong_dim)) \<and>
   (\<exists>e. fst (loadIndex id [''index.json'' \<mapsto> JsonText (index_json index_wrong_dim)]
               \<lparr>memoIndex = None, reads = []\<rparr> ''index.json'') = Inl e) \<and>
   cache \<lparr>cache = None, route_reads = []\<rparr> = None \<and>
   \<not> (\<exists>e. fst (getIndex ''index.json'' [''index.json'' \<mapsto> JsonText (index_json index_wrong_dim)]
               \<lparr>cache = None, route_reads = []\<rparr>) = Inl e) \<and>
   (\<exists>e. fst (loadIndex id
               [''index.json'' \<mapsto>
                  JsonText (JObj [(''vectors'', JArr [JNull]), (''chunks'', JArr [JNull])])]
               \<lparr>memoIndex = None, reads = []\<rparr> ''index.json'') = Inl e) \<and>
   \<not> (\<exists>e. fst (getIndex ''index.json''
               [''index.json'' \<mapsto>
                  JsonText (JObj [(''vectors'', JArr [JNull]), (''chunks'', JArr [JNull])])]
               \<lparr>cache = None, route_reads = []\<rparr>) = Inl e) \<and>
   (\<exists>e. fst (loadIndex id [''index.json'' \<mapsto> JsonText (JObj [(''chunks'', JArr [JNull])])]
               \<lparr>memoIndex = None, reads = []\<rparr> ''index.json'') = Inl e) \<and>
   (\<exists>e. fst (getIndex ''index.json'' Map.empty \<lparr>cache = None, route_reads = []\<rparr>) = Inl e)"
  using readers_validate_nonempty_and_first_dim
    [where st = "\<lparr>memoIndex = None, reads = []\<rparr>"
       and fs = "[''index.json'' \<mapsto> JsonText (index_json index_wrong_dim)]"
       and path_resolve = id and p = "''index.json''" and idx = index_wrong_dim
       and rt = "\<lparr>cache = None, route_reads = []\<rparr>" and INDEX_FILE = "''index.json''"]
    readers_validate_nonempty_and_first_dim
    [where st = "\<lparr>memoIndex = None, reads = []\<rparr>"
       and fs = "[''index.json'' \<mapsto>
                   JsonText (JObj [(''vectors'', JArr [JNull]), (''chunks'', JArr [JNull])])]"
       and path_resolve = id and p = "''index.json''"
       and rt = "\<lparr>cache = None, route_reads = []\<rparr>" and INDEX_FILE = "''index.json''"]
    readers_validate_nonempty_and_first_dim
    [where st = "\<lparr>memoIndex = None, reads = []\<rparr>"
       and fs = "[''index.json'' \<mapsto> JsonText (JObj [(''chunks'', JArr [JNull])])]"
       and path_resolve = id and p = "''index.json''"]
    readers_validate_nonempty_and_first_dim
    [where fs = Map.empty
       and rt = "\<lparr>cache = None, route_reads = []\<rparr>" and INDEX_FILE = "''index.json''"]
  by (simp add: index_wrong_dim_def no_items_def index_json_def vec_json_def)


subsection \<open>Fused scores\<close>

lemma makeIdf_tokens_lookup:
  "makeIdf_tokens ts seen df t =
     (if t \<in> set ts \<and> t \<noteq> [] \<and> t \<notin> seen
      then Some ((case df t of None \<Rightarrow> 0 | Some v \<Rightarrow> v) + 1) else df t)"
proof (induction ts arbitrary: seen df t)
  case Nil
  then show ?case by simp
next
  case (Cons a ts)
  show ?case
    by (auto simp: Cons.IH)
qed

lemma makeIdf_docs_lookup:
  "makeIdf_docs docs df t =
     (if t = [] \<or> doc_freq docs t = 0 then df t
      else Some ((case df t of None \<Rightarrow> 0 | Some v \<Rightarrow> v) + doc_freq docs t))"
proof (induction docs arbitrary: df)
  case Nil
  then show ?case by (simp add: doc_freq_def)
next
  case (Cons d docs)
  show ?case
    by (simp add: Cons.IH makeIdf_tokens_lookup doc_freq_def)
qed

lemma doc_freq_le: "doc_freq docs t \<le> length docs"
  by (simp add: doc_freq_def)

lemma makeIdf_lookup:
  "makeIdf docs t =
     (if t \<noteq> [] \<and> 0 < doc_freq docs t
      then Some (ln ((real (length docs) + 1) / (real (doc_freq docs t) + 1)) + 1) else None)"
  by (simp add: makeIdf_def Let_def makeIdf_docs_lookup)

lemma idf_value_pos: "0 < ln ((real (length docs) + 1) / (real (doc_freq docs t) + 1)) + 1"
proof -
  have "1 \<le> (real (length docs) + 1) / (real (doc_freq docs t) + 1)"
    using doc_freq_le [of docs t] by (simp add: le_divide_eq)
  then have "0 \<le> ln ((real (length docs) + 1) / (real (doc_freq docs t) + 1))"
    by simp
  then show ?thesis by linarith
qed

lemma idf_or_default_makeIdf:
  "t \<noteq> [] \<Longrightarrow> idf_or_default (makeIdf docs) t = idf_weight docs t"
  using idf_value_pos [of docs t]
  by (simp add: idf_or_default_def makeIdf_lookup idf_weight_def)

lemma fold_cond_sum:
  "fold (\<lambda>t s. if P t then s + g t else s) ts (a::real) =
     a + (\<Sum>t \<leftarrow> ts. if P t then g t else 0)"
  by (induction ts arbitrary: a) auto

lemma kwScore_makeIdf: "kwScore q txt (makeIdf docs) = kw_sum docs q txt"
proof -
  have "\<And>t. t \<in> set (query_tokens q) \<Longrightarrow> t \<noteq> []"
    by (simp add: query_tokens_def)
  then have "(\<Sum>t \<leftarrow> query_tokens q.
               if includes_str (toLowerCase txt) t then idf_or_default (makeIdf docs) t else 0) =
             kw_sum docs q txt"
    unfolding kw_sum_def
    by (intro arg_cong [where f = sum_list] map_cong) (auto simp: idf_or_default_makeIdf)
  then show ?thesis
    by (simp add: kwScore_def Let_def fold_cond_sum query_tokens_def [symmetric])
qed

lemma score_loop_Inr:
  "score_loop f is acc = Inr scored \<longleftrightarrow>
     (\<forall>i \<in> set is. \<exists>v. f i = Inr v) \<and> scored = acc @ map (\<lambda>i. (i, projr (f i))) is"
proof (induction "is" arbitrary: acc)
  case Nil
  then show ?case by auto
next
  case (Cons i "is")
  show ?case
  proof (cases "f i")
    case (Inl e)
    then show ?thesis by auto
  next
    case (Inr v)
    then show ?thesis using Cons.IH [of "acc @ [(i, v)]"] by auto
  qed
qed

lemma dot_Nil [simp]: "dot [] b = 0"
  by (simp add: dot_def)

lemma fused_at_Inr:
  assumes "fused_at qv index question (makeIdf (map text_c (chunks index))) alpha i = Inr v"
  shows "v = fused_score index qv question alpha i"
proof (cases "i < length (vectors index)")
  case True
  with assms show ?thesis
    by (simp add: fused_at_def nth_opt_def Let_def kwScore_makeIdf fused_score_def)
next
  case False
  with assms show ?thesis
    by (auto simp: fused_at_def nth_opt_def Let_def kwScore_makeIdf fused_score_def
        split: if_splits)
qed

lemma retrieve_scored_Inr:
  assumes "retrieve_scored client index question alpha = Inr scored"
  shows "\<exists>qv rest. client (model index) [question] = Inr (qv # rest) \<and>
           scored = map (\<lambda>i. (i, fused_score index qv question alpha i)) [0..<length (chunks index)]"
proof -
  from assms obtain qv rest where c: "client (model index) [question] = Inr (qv # rest)"
    by (auto simp: retrieve_scored_def split: sum.splits list.splits)
  let ?f = "fused_at qv index question (makeIdf (map text_c (chunks index))) alpha"
  from assms c have "score_loop ?f [0..<length (chunks index)] [] = Inr scored"
    by (simp add: retrieve_scored_def)
  then have ok: "\<forall>i \<in> set [0..<length (chunks index)]. \<exists>v. ?f i = Inr v"
    and sc: "scored = map (\<lambda>i. (i, projr (?f i))) [0..<length (chunks index)]"
    unfolding score_loop_Inr by simp_all
  have "map (\<lambda>i. (i, projr (?f i))) [0..<length (chunks index)] =
        map (\<lambda>i. (i, fused_score index qv question alpha i)) [0..<length (chunks index)]"
  proof (rule map_cong [OF refl])
    fix i assume "i \<in> set [0..<length (chunks index)]"
    with ok obtain v where v: "?f i = Inr v" by blast
    with fused_at_Inr [OF v] show "(i, projr (?f i)) = (i, fused_score index qv question alpha i)"
      by simp
  qed
  with c sc show ?thesis by blast
qed

text \<open>
  C2 (amended). When the scoring step of \<open>retrieve\<close> succeeds, the score of chunk \<open>i\<close> is
  \<open>alpha * dot(q, vectors[i]) + (1 - alpha) * tanh(0.5 * kw_i)\<close>, where \<open>q\<close> is the first
  embedding the service returns for the question and \<open>kw_i\<close> adds, for every token of the
  question (a repeated token counts each time it occurs) that occurs in the lower-cased chunk
  text as a substring, \<open>ln((N+1)/(df(t)+1)) + 1\<close> when some chunk has the token \<open>t\<close> and 0.5
  otherwise; \<open>N\<close> is the number of chunks and \<open>df(t)\<close> the number of chunks that have \<open>t\<close> among
  their tokens.
\<close>

theorem retrieve_scores_are_fused:
  assumes "retrieve_scored client index question alpha = Inr scored"
  shows "\<exists>qv rest. client (model index) [question] = Inr (qv # rest) \<and>
           length scored = length (chunks index) \<and>
           (\<forall>i < length (chunks index).
              scored ! i =
                (i, alpha * dot qv (vectors index ! i) +
                    (1 - alpha) *
                    tanh (0.5 * (\<Sum>t \<leftarrow> query_tokens question.
                                   if includes_str (toLowerCase (text_c (chunks index ! i))) t
                                   then idf_weight (map text_c (chunks index)) t else 0))))"
  using retrieve_scored_Inr [OF assms]
  by (auto simp: fused_score_def kw_sum_def)

subsection \<open>Neighbor expansion\<close>

lemma layout_ok_order:
  "layout_ok cs \<Longrightarrow> i \<le> j \<Longrightarrow> j < length cs \<Longrightarrow>
   source_path (cs ! i) = source_path (cs ! j) \<Longrightarrow> order (cs ! j) = order (cs ! i) + (j - i)"
proof (induction cs arbitrary: i j rule: layout_ok.induct)
  case 1
  then show ?case by simp
next
  case (2 c)
  then show ?case by simp
next
  case (3 c d cs)
  show ?case
  proof (cases i)
    case 0
    show ?thesis
    proof (cases j)
      case 0
      with \<open>i = 0\<close> show ?thesis by simp
    next
      case (Suc j')
      have same: "source_path c = source_path ((d # cs) ! j')"
        using "3.prems"(4) \<open>i = 0\<close> Suc by simp
      have j': "j' < length (d # cs)" using "3.prems"(3) Suc by simp
      have cd: "source_path c = source_path d"
      proof (rule ccontr)
        assume ne: "source_path c \<noteq> source_path d"
        then have notin: "source_path c \<notin> source_path ` set cs"
          using "3.prems"(1) by simp
        show False
        proof (cases j')
          case 0
          with same ne show False by simp
        next
          case (Suc k)
          then have "(d # cs) ! j' \<in> set cs" using j' by simp
          with same notin show False by (metis imageI)
        qed
      qed
      then have od: "order d = order c + 1" and ok: "layout_ok (d # cs)"
        using "3.prems"(1) by simp_all
      have "order ((d # cs) ! j') = order ((d # cs) ! 0) + (j' - 0)"
        using "3.IH" [OF ok, of 0 j'] j' same cd by simp
      then show ?thesis using od \<open>i = 0\<close> Suc by simp
    qed
  next
    case (Suc i')
    then obtain j' where j: "j = Suc j'" using "3.prems"(2) by (cases j) auto
    have ok: "layout_ok (d # cs)" using "3.prems"(1) by simp
    show ?thesis
      using "3.IH" [OF ok, of i' j'] "3.prems" Suc j by simp
  qed
qed

lemma set_set_add [simp]: "set (set_add s x) = insert x (set s)"
  by (auto simp: set_add_def)

lemma set_set_from [simp]: "set (set_from xs) = set xs"
proof -
  have "\<And>s. set (fold (\<lambda>x s. set_add s x) xs s) = set xs \<union> set s"
    by (induction xs) auto
  then show ?thesis by (simp add: set_from_def)
qed

lemma expand_w_mem:
  "j \<in> set (expand_w cs i ws s) \<Longrightarrow>
   j \<in> set s \<or>
   (\<exists>w \<in> set ws. (j + w = i \<or> (j = i + w \<and> j < length cs)) \<and>
       source_path (cs ! j) = source_path (cs ! i))"
proof (induction ws arbitrary: s)
  case Nil
  then show ?case by simp
next
  case (Cons w ws)
  from Cons.IH [OF Cons.prems [simplified expand_w.simps Let_def]]
  show ?case
    by (auto split: if_splits)
qed

lemma expand_picked_mem:
  "j \<in> set (expand_picked cs nw picked s) \<Longrightarrow>
   j \<in> set s \<or> j \<in> set picked \<or>
   (\<exists>i \<in> set picked. \<exists>w. 1 \<le> w \<and> w \<le> nw \<and>
       (j + w = i \<or> (j = i + w \<and> j < length cs)) \<and>
       source_path (cs ! j) = source_path (cs ! i))"
proof (induction picked arbitrary: s)
  case Nil
  then show ?case by simp
next
  case (Cons i picked)
  from Cons.IH [OF Cons.prems [simplified expand_picked.simps]]
  consider "j \<in> set (expand_w cs i [1..<Suc nw] (set_add s i))" | "j \<in> set picked"
    | "\<exists>i \<in> set picked. \<exists>w. 1 \<le> w \<and> w \<le> nw \<and>
       (j + w = i \<or> (j = i + w \<and> j < length cs)) \<and>
       source_path (cs ! j) = source_path (cs ! i)"
    by blast
  then show ?case
  proof cases
    case 1
    from expand_w_mem [OF 1] show ?thesis by (auto simp: less_Suc_eq_le)
  next
    case 2
    then show ?thesis by simp
  next
    case 3
    then show ?thesis by auto
  qed
qed

lemma mmr_scan_best:
  "mmr_scan items vs lam sel cands best = Inr (Some (b, bi)) \<Longrightarrow>
   bi \<in> set cands \<or> (\<exists>b'. best = Some (b', bi))"
proof (induction cands arbitrary: best)
  case Nil
  then show ?case by simp
next
  case (Cons i cands)
  from Cons.prems obtain best' where
    r: "mmr_scan items vs lam sel cands best' = Inr (Some (b, bi))" and
    b: "best' = best \<or> (\<exists>m. best' = Some (m, i))"
    by (auto simp: Let_def split: sum.splits option.splits if_splits)
  from Cons.IH [OF r] b show ?case by auto
qed

lemma mmr_loop_subset:
  "mmr_loop items vs K lam sel cands = Inr picked \<Longrightarrow> set picked \<subseteq> set sel \<union> set cands"
proof (induction items vs K lam sel cands rule: mmr_loop.induct)
  case (1 items vs K lam selected candidates)
  show ?case
  proof (cases "length selected < K \<and> candidates \<noteq> []")
    case False
    with "1.prems" show ?thesis by auto
  next
    case True
    show ?thesis
    proof (cases "mmr_scan items vs lam selected candidates None")
      case (Inl e)
      with True "1.prems" show ?thesis by simp
    next
      case (Inr r)
      show ?thesis
      proof (cases r)
        case None
        with Inr True "1.prems" show ?thesis by auto
      next
        case (Some p)
        obtain b bi where p: "p = (b, bi)" by (cases p)
        have bi: "bi \<in> set candidates"
          using mmr_scan_best [of items vs lam selected candidates None b bi] Inr Some p by simp
        have rec: "mmr_loop items vs K lam (selected @ [bi]) (removeAll bi candidates) = Inr picked"
          using "1.prems" True Inr Some p by simp
        from "1.IH" [OF True Inr Some p [symmetric] rec] bi
        show ?thesis by auto
      qed
    qed
  qed
qed

lemma mmr_subset: "mmr items vs K lam = Inr picked \<Longrightarrow> set picked \<subseteq> fst ` set items"
  using mmr_loop_subset [of items vs K lam "[]" "set_from (map fst items)" picked]
  by (simp add: mmr_def)

lemma score_loop_fst:
  "score_loop f is acc = Inr scored \<Longrightarrow> map fst scored = map fst acc @ is"
  by (induction "is" arbitrary: acc) (auto split: sum.splits)

lemma retrieve_scored_fst:
  "retrieve_scored client index question alpha = Inr scored \<Longrightarrow>
   map fst scored = [0..<length (chunks index)]"
  by (auto simp: retrieve_scored_def Let_def split: sum.splits list.splits dest: score_loop_fst)

lemma set_sort_desc [simp]: "set (sort_desc xs) = set xs"
  by (simp add: sort_desc_def)

lemma retrieve_picked_range:
  assumes "retrieve_picked client index question topK alpha = Inr (scored, picked)"
  shows "\<forall>i \<in> set picked. i < length (chunks index)"
proof -
  from assms obtain scored0 where
    s0: "retrieve_scored client index question alpha = Inr scored0" and
    sc: "scored = sort_desc scored0" and
    m: "mmr (take 40 scored) (vectors index) topK 0.6 = Inr picked"
    by (auto simp: retrieve_picked_def Let_def split: sum.splits)
  have "set picked \<subseteq> fst ` set (take 40 scored)" using mmr_subset [OF m] .
  also have "\<dots> \<subseteq> fst ` set scored" by (intro image_mono set_take_subset)
  also have "\<dots> = set (map fst scored0)" using sc by simp
  also have "\<dots> = {0..<length (chunks index)}"
    using retrieve_scored_fst [OF s0] by simp
  finally show ?thesis by auto
qed

lemma attach_scores_fst: "attach_scores scored is = Inr ps \<Longrightarrow> map fst ps = is"
  by (induction "is" arbitrary: ps) (auto split: sum.splits)

lemma retrieve_hits_from:
  assumes "retrieve client index question topK nw alpha = Inr hits"
  shows "\<exists>scored picked.
           retrieve_picked client index question topK alpha = Inr (scored, picked) \<and>
           (\<forall>h \<in> set hits. \<exists>j \<in> set (expand_picked (chunks index) nw picked []).
              \<exists>s. h = to_hit (chunks index ! j) s)"
proof -
  from assms obtain scored picked pairs final where
    p: "retrieve_picked client index question topK alpha = Inr (scored, picked)" and
    a1: "attach_scores scored (expand_picked (chunks index) nw picked []) = Inr pairs" and
    a2: "attach_scores scored (map fst (take (topK + 2) (sort_desc pairs))) = Inr final" and
    h: "hits = map (\<lambda>(i, s). to_hit (chunks index ! i) s) final"
    by (auto simp: retrieve_def Let_def split: sum.splits prod.splits)
  have "fst ` set final = set (map fst final)" by simp
  also have "\<dots> = fst ` set (take (topK + 2) (sort_desc pairs))"
    using attach_scores_fst [OF a2] by simp
  also have "\<dots> \<subseteq> fst ` set (sort_desc pairs)" by (intro image_mono set_take_subset)
  also have "\<dots> = set (map fst pairs)" by simp
  also have "\<dots> = set (expand_picked (chunks index) nw picked [])"
    using attach_scores_fst [OF a1] by simp
  finally have sub: "fst ` set final \<subseteq> set (expand_picked (chunks index) nw picked [])" .
  have "\<forall>h \<in> set hits. \<exists>j \<in> set (expand_picked (chunks index) nw picked []).
              \<exists>s. h = to_hit (chunks index ! j) s"
  proof
    fix x assume "x \<in> set hits"
    then obtain i s where "(i, s) \<in> set final" "x = to_hit (chunks index ! i) s"
      using h by auto
    moreover from this sub have "i \<in> set (expand_picked (chunks index) nw picked [])"
      by force
    ultimately show "\<exists>j \<in> set (expand_picked (chunks index) nw picked []).
              \<exists>s. x = to_hit (chunks index ! j) s" by blast
  qed
  with p show ?thesis by blast
qed

text \<open>
  C3 (amended). Every chunk \<open>retrieve\<close> returns is at an index of the expanded set, and every
  index \<open>j\<close> of the expanded set is inside the array of chunks and is either a selected index
  or, for a selected index \<open>i\<close> and a \<open>w\<close> in \<open>1..neighborWindow\<close>, the position \<open>i - w\<close> or
  \<open>i + w\<close> of a chunk with the \<open>source_path\<close> of chunk \<open>i\<close>: a neighbor is taken by its
  position in the array, never from another document and never from outside the array. The
  field \<open>order\<close> is not read. In an index in which the chunks of each document are adjacent
  and their \<open>order\<close> rises by one (\<open>layout_ok\<close>), the chunk at position \<open>i - w\<close> or \<open>i + w\<close>
  is the one whose \<open>order\<close> is that of chunk \<open>i\<close> minus or plus \<open>w\<close>.
\<close>

theorem neighbors_same_document_in_range:
  assumes "retrieve client index question topK neighborWindow alpha = Inr hits"
  shows "\<exists>scored picked.
           retrieve_picked client index question topK alpha = Inr (scored, picked) \<and>
           (\<forall>h \<in> set hits. \<exists>j \<in> set (expand_picked (chunks index) neighborWindow picked []).
              \<exists>s. h = to_hit (chunks index ! j) s) \<and>
           (\<forall>j \<in> set (expand_picked (chunks index) neighborWindow picked []).
              j < length (chunks index) \<and>
              (j \<in> set picked \<or>
               (\<exists>i \<in> set picked. \<exists>w. 1 \<le> w \<and> w \<le> neighborWindow \<and>
                  (j + w = i \<or> j = i + w) \<and>
                  source_path (chunks index ! j) = source_path (chunks index ! i) \<and>
                  (layout_ok (chunks index) \<longrightarrow>
                     order (chunks index ! j) + w = order (chunks index ! i) \<or>
                     order (chunks index ! j) = order (chunks index ! i) + w))))"
proof -
  from retrieve_hits_from [OF assms] obtain scored picked where
    p: "retrieve_picked client index question topK alpha = Inr (scored, picked)" and
    h: "\<forall>h \<in> set hits. \<exists>j \<in> set (expand_picked (chunks index) neighborWindow picked []).
              \<exists>s. h = to_hit (chunks index ! j) s"
    by blast
  let ?cs = "chunks index"
  have rng: "\<forall>i \<in> set picked. i < length ?cs" using retrieve_picked_range [OF p] .
  have "j < length ?cs \<and>
              (j \<in> set picked \<or>
               (\<exists>i \<in> set picked. \<exists>w. 1 \<le> w \<and> w \<le> neighborWindow \<and>
                  (j + w = i \<or> j = i + w) \<and>
                  source_path (?cs ! j) = source_path (?cs ! i) \<and>
                  (layout_ok ?cs \<longrightarrow>
                     order (?cs ! j) + w = order (?cs ! i) \<or>
                     order (?cs ! j) = order (?cs ! i) + w)))"
    if j: "j \<in> set (expand_picked ?cs neighborWindow picked [])" for j
  proof -
    from expand_picked_mem [OF j]
    consider "j \<in> set picked"
      | i w where "i \<in> set picked" "1 \<le> w" "w \<le> neighborWindow"
          "j + w = i \<or> (j = i + w \<and> j < length ?cs)"
          "source_path (?cs ! j) = source_path (?cs ! i)"
      by auto
    then show ?thesis
    proof cases
      case 1
      with rng show ?thesis by simp
    next
      case 2
      have il: "i < length ?cs" using rng 2(1) by simp
      have jl: "j < length ?cs" using 2(4) il by auto
      have ord: "order (?cs ! j) + w = order (?cs ! i) \<or> order (?cs ! j) = order (?cs ! i) + w"
        if ok: "layout_ok ?cs"
      proof (cases "j + w = i")
        case True
        then show ?thesis
          using layout_ok_order [OF ok, of j i] il 2(5) by auto
      next
        case False
        then have "j = i + w" using 2(4) by simp
        then show ?thesis
          using layout_ok_order [OF ok, of i j] jl 2(5) by auto
      qed
      show ?thesis using 2 jl ord by blast
    qed
  qed
  with p h show ?thesis by blast
qed

subsection \<open>Retrieval on concrete indexes\<close>

lemma doc_chunk_fields:
  "source_path (doc_chunk name n txt) = ''/docs/'' @ name"
  "text_c (doc_chunk name n txt) = txt"
  "order (doc_chunk name n txt) = n"
  by (simp_all add: doc_chunk_def)

lemma index_two_docs_fields:
  "model index_two_docs = ''text-embedding-3-large''"
  "chunks index_two_docs =
     [doc_chunk ''a.md'' 0 ''alpha'', doc_chunk ''a.md'' 1 ''beta'',
      doc_chunk ''b.md'' 0 ''gamma'', doc_chunk ''b.md'' 1 ''delta'']"
  "vectors index_two_docs = [[1, 0], [0, 1], [3 / 5, 4 / 5], [- 1, 0]]"
  by (simp_all add: index_two_docs_def)

lemma index_cat_fields:
  "model index_cat = ''text-embedding-3-large''"
  "chunks index_cat = [doc_chunk ''pets.md'' 0 ''cat'']"
  "vectors index_cat = [[1]]"
  by (simp_all add: index_cat_def)

lemma lower_split_examples:
  "lower_split ''zzz'' = [''zzz'']"
  "lower_split ''cat cat'' = [''cat'', ''cat'']"
  "lower_split ''cat'' = [''cat'']"
  by (simp_all add: lower_split_def toLowerCase_def lowerChar_def isTokenChar_def
      isLowerAZ_def isDigit_def)

lemma toLowerCase_examples:
  "toLowerCase ''alpha'' = ''alpha''" "toLowerCase ''beta'' = ''beta''"
  "toLowerCase ''gamma'' = ''gamma''" "toLowerCase ''delta'' = ''delta''"
  "toLowerCase ''cat'' = ''cat''"
  by (simp_all add: toLowerCase_def lowerChar_def)

lemma kwScore_zzz:
  "kwScore ''zzz'' txt idf =
     (if includes_str (toLowerCase txt) ''zzz'' then idf_or_default idf ''zzz'' else 0)"
  by (simp add: kwScore_def lower_split_examples)

lemma two_docs_scored:
  "retrieve_scored client_up index_two_docs ''zzz'' (7 / 10) =
     Inr [(0, 0), (1, 7 / 10), (2, 14 / 25), (3, 0)]"
  by (simp add: retrieve_scored_def client_up_def index_two_docs_fields doc_chunk_fields
      fused_at_def nth_opt_def dot_def kwScore_zzz toLowerCase_examples
      upt_rec [of _ "numeral _"] upt_rec [of 0] Let_def)

lemma two_docs_picked:
  "retrieve_picked client_up index_two_docs ''zzz'' 1 (7 / 10) =
     Inr ([(1, 7 / 10), (2, 14 / 25), (0, 0), (3, 0)], [1])"
  by (simp add: retrieve_picked_def two_docs_scored sort_desc_def mmr_def set_from_def
      set_add_def find_score_def index_two_docs_fields nth_opt_def dot_def
      upt_rec [of _ "numeral _"] upt_rec [of 0])

lemma two_docs_expanded:
  "expand_picked (chunks index_two_docs) 1 [1] [] = [1, 0]"
  by (simp add: index_two_docs_fields doc_chunk_fields set_add_def Let_def)

lemma two_docs_retrieve:
  "retrieve client_up index_two_docs ''zzz'' 1 1 (7 / 10) =
     Inr [to_hit (doc_chunk ''a.md'' 1 ''beta'') (7 / 10),
          to_hit (doc_chunk ''a.md'' 0 ''alpha'') 0]"
  unfolding retrieve_def two_docs_picked
  by (simp add: two_docs_expanded [simplified] find_score_def sort_desc_def
      index_two_docs_fields doc_chunk_fields set_add_def Let_def)

lemma two_docs_layout: "layout_ok (chunks index_two_docs)"
  by (simp add: index_two_docs_fields doc_chunk_fields)

theorem neighbors_witness:
  "retrieve client_up index_two_docs ''zzz'' 1 1 (7 / 10) =
     Inr [to_hit (doc_chunk ''a.md'' 1 ''beta'') (7 / 10),
          to_hit (doc_chunk ''a.md'' 0 ''alpha'') 0] \<and>
   layout_ok (chunks index_two_docs) \<and>
   expand_picked (chunks index_two_docs) 1 [1] [] = [1, 0] \<and>
   (\<exists>i \<in> set [1]. \<exists>w. 1 \<le> w \<and> w \<le> 1 \<and> (0 + w = i \<or> 0 = i + w) \<and>
      source_path (chunks index_two_docs ! 0) = source_path (chunks index_two_docs ! i) \<and>
      (order (chunks index_two_docs ! 0) + w = order (chunks index_two_docs ! i) \<or>
       order (chunks index_two_docs ! 0) = order (chunks index_two_docs ! i) + w))"
proof -
  from neighbors_same_document_in_range [OF two_docs_retrieve]
  obtain scored picked where
    p: "retrieve_picked client_up index_two_docs ''zzz'' 1 (7 / 10) = Inr (scored, picked)" and
    n: "\<forall>j \<in> set (expand_picked (chunks index_two_docs) 1 picked []).
      j < length (chunks index_two_docs) \<and>
      (j \<in> set picked \<or>
       (\<exists>i \<in> set picked. \<exists>w. 1 \<le> w \<and> w \<le> 1 \<and> (j + w = i \<or> j = i + w) \<and>
          source_path (chunks index_two_docs ! j) = source_path (chunks index_two_docs ! i) \<and>
          (layout_ok (chunks index_two_docs) \<longrightarrow>
           order (chunks index_two_docs ! j) + w = order (chunks index_two_docs ! i) \<or>
           order (chunks index_two_docs ! j) = order (chunks index_two_docs ! i) + w)))"
    by blast
  from p have pk: "picked = [1]" unfolding two_docs_picked by simp
  have mem: "0 \<in> set (expand_picked (chunks index_two_docs) 1 [1] [])"
    unfolding two_docs_expanded by simp
  have notpicked: "(0::nat) \<notin> set [1]" by simp
  from n [unfolded pk, rule_format, OF mem] notpicked two_docs_layout
  have "\<exists>i \<in> set [1]. \<exists>w. 1 \<le> w \<and> w \<le> 1 \<and> (0 + w = i \<or> 0 = i + w) \<and>
      source_path (chunks index_two_docs ! 0) = source_path (chunks index_two_docs ! i) \<and>
      (order (chunks index_two_docs ! 0) + w = order (chunks index_two_docs ! i) \<or>
       order (chunks index_two_docs ! 0) = order (chunks index_two_docs ! i) + w)"
    by blast
  then show ?thesis
    using two_docs_retrieve two_docs_layout two_docs_expanded by blast
qed

lemma index_orders_fields:
  "model index_orders_0_7_3 = ''text-embedding-3-large''"
  "chunks index_orders_0_7_3 =
     [doc_chunk ''a.md'' 0 ''alpha'', doc_chunk ''a.md'' 7 ''beta'',
      doc_chunk ''a.md'' 3 ''gamma'']"
  "vectors index_orders_0_7_3 = [[1, 0], [0, 1], [0, 1]]"
  by (simp_all add: index_orders_0_7_3_def)

lemma orders_scored:
  "retrieve_scored client_right index_orders_0_7_3 ''zzz'' (7 / 10) =
     Inr [(0, 7 / 10), (1, 0), (2, 0)]"
  by (simp add: retrieve_scored_def client_right_def index_orders_fields doc_chunk_fields
      fused_at_def nth_opt_def dot_def kwScore_zzz toLowerCase_examples
      upt_rec [of _ "numeral _"] upt_rec [of 0] Let_def)

lemma orders_picked:
  "retrieve_picked client_right index_orders_0_7_3 ''zzz'' 1 (7 / 10) =
     Inr ([(0, 7 / 10), (1, 0), (2, 0)], [0])"
  by (simp add: retrieve_picked_def orders_scored sort_desc_def mmr_def set_from_def
      set_add_def find_score_def index_orders_fields nth_opt_def dot_def
      upt_rec [of _ "numeral _"] upt_rec [of 0])

lemma orders_expanded:
  "expand_picked (chunks index_orders_0_7_3) 1 [0] [] = [0, 1]"
  by (simp add: index_orders_fields doc_chunk_fields set_add_def Let_def)

lemma orders_retrieve:
  "retrieve client_right index_orders_0_7_3 ''zzz'' 1 1 (7 / 10) =
     Inr [to_hit (doc_chunk ''a.md'' 0 ''alpha'') (7 / 10),
          to_hit (doc_chunk ''a.md'' 7 ''beta'') 0]"
  unfolding retrieve_def orders_picked
  by (simp add: orders_expanded [simplified] find_score_def sort_desc_def
      index_orders_fields doc_chunk_fields set_add_def Let_def)

text \<open>An index file whose three chunks of one document have the orders 0, 7 and 3 is
  accepted by \<open>loadIndex\<close>. On it \<open>retrieve\<close> selects the chunk at position 0, of order 0, and
  adds for \<open>w = 1\<close> the chunk at position 1, whose order is 7 and not 0 + 1.\<close>

theorem neighbor_taken_by_position_not_order:
  "fst (loadIndex id [''index.json'' \<mapsto> JsonText (index_json stored_orders_0_7_3)]
          \<lparr>memoIndex = None, reads = []\<rparr> ''index.json'') =
     Inr (index_json stored_orders_0_7_3) \<and>
   chunks stored_orders_0_7_3 = chunks index_orders_0_7_3 \<and>
   map order (chunks index_orders_0_7_3) = [0, 7, 3] \<and>
   map source_path (chunks index_orders_0_7_3) = [''/docs/a.md'', ''/docs/a.md'', ''/docs/a.md''] \<and>
   retrieve_picked client_right index_orders_0_7_3 ''zzz'' 1 (7 / 10) =
     Inr ([(0, 7 / 10), (1, 0), (2, 0)], [0]) \<and>
   retrieve client_right index_orders_0_7_3 ''zzz'' 1 1 (7 / 10) =
     Inr [to_hit (doc_chunk ''a.md'' 0 ''alpha'') (7 / 10),
          to_hit (doc_chunk ''a.md'' 7 ''beta'') 0] \<and>
   order (doc_chunk ''a.md'' 7 ''beta'') \<noteq> order (doc_chunk ''a.md'' 0 ''alpha'') + 1"
proof -
  have l: "fst (loadIndex id [''index.json'' \<mapsto> JsonText (index_json stored_orders_0_7_3)]
          \<lparr>memoIndex = None, reads = []\<rparr> ''index.json'') =
     Inr (index_json stored_orders_0_7_3)"
    by (simp add: loadIndex_def loadIndex_read_def Let_def index_json_lengths vec_json_def
        stored_orders_0_7_3_def)
  have c: "chunks stored_orders_0_7_3 = chunks index_orders_0_7_3"
    by (simp add: stored_orders_0_7_3_def index_orders_0_7_3_def)
  have o: "map order (chunks index_orders_0_7_3) = [0, 7, 3]"
    "map source_path (chunks index_orders_0_7_3) = [''/docs/a.md'', ''/docs/a.md'', ''/docs/a.md'']"
    "order (doc_chunk ''a.md'' 7 ''beta'') \<noteq> order (doc_chunk ''a.md'' 0 ''alpha'') + 1"
    by (simp_all add: index_orders_fields doc_chunk_fields)
  from l c o orders_picked orders_retrieve show ?thesis by blast
qed

text \<open>
  C8. \<open>retrieve\<close> on an index of two documents with \<open>topK = 1\<close> and \<open>neighborWindow = 1\<close>
  returns the selected chunk and its neighbor in descending score order, and both have
  \<open>rank\<close> 0: the source sets \<open>rank: 0\<close> on every returned chunk.
\<close>

theorem retrieve_returns_rank_zero:
  "retrieve client_up index_two_docs ''zzz'' 1 1 (7 / 10) =
     Inr [to_hit (doc_chunk ''a.md'' 1 ''beta'') (7 / 10),
          to_hit (doc_chunk ''a.md'' 0 ''alpha'') 0] \<and>
   map rank [to_hit (doc_chunk ''a.md'' 1 ''beta'') (7 / 10),
             to_hit (doc_chunk ''a.md'' 0 ''alpha'') 0] = [0, 0]"
  using two_docs_retrieve by (simp add: to_hit_def Chunk.extend_def)

lemma cat_query_tokens: "query_tokens ''cat cat'' = [''cat'', ''cat'']"
  by (simp add: query_tokens_def lower_split_examples)

lemma cat_idf: "idf_weight [''cat''] ''cat'' = 1"
  by (simp add: idf_weight_def doc_freq_def lower_split_examples)

lemma cat_kw: "kw_sum [''cat''] ''cat cat'' ''cat'' = 2"
  "kw_sum_distinct [''cat''] ''cat cat'' ''cat'' = 1"
  by (simp_all add: kw_sum_def kw_sum_distinct_def cat_query_tokens cat_idf toLowerCase_examples)

lemma cat_scored:
  "retrieve_scored client_one index_cat ''cat cat'' (7 / 10) =
     Inr [(0, 7 / 10 * dot [1] [1] + (1 - 7 / 10) * tanh (0.5 * 2))]"
  by (simp add: retrieve_scored_def client_one_def index_cat_fields doc_chunk_fields
      fused_at_def nth_opt_def kwScore_makeIdf cat_kw Let_def)

text \<open>The question \<open>cat cat\<close> on the one chunk \<open>cat\<close>: the score is not the one the sum over
  the distinct tokens of the question gives.\<close>

theorem repeated_query_token_counts_twice:
  "retrieve_scored client_one index_cat ''cat cat'' (7 / 10) \<noteq>
     Inr [(0, 7 / 10 * dot [1] (vectors index_cat ! 0) +
              (1 - 7 / 10) *
              tanh (0.5 * kw_sum_distinct (map text_c (chunks index_cat)) ''cat cat''
                            (text_c (chunks index_cat ! 0))))]"
proof -
  have "tanh (1 :: real) \<noteq> tanh (1 / 2)"
    by (simp add: tanh_real_eq_iff)
  then show ?thesis
    by (simp add: cat_scored index_cat_fields doc_chunk_fields cat_kw)
qed

theorem retrieve_scores_witness:
  "retrieve_scored client_one index_cat ''cat cat'' (7 / 10) =
     Inr [(0, 7 / 10 + 3 / 10 * tanh 1)] \<and>
   (\<exists>qv rest. client_one (model index_cat) [''cat cat''] = Inr (qv # rest) \<and>
      length [(0 :: nat, 7 / 10 + 3 / 10 * tanh (1 :: real))] = length (chunks index_cat) \<and>
      (\<forall>i < length (chunks index_cat).
          [(0, 7 / 10 + 3 / 10 * tanh 1)] ! i =
            (i, 7 / 10 * dot qv (vectors index_cat ! i) +
                (1 - 7 / 10) *
                tanh (0.5 * (\<Sum>t \<leftarrow> query_tokens ''cat cat''.
                               if includes_str (toLowerCase (text_c (chunks index_cat ! i))) t
                               then idf_weight (map text_c (chunks index_cat)) t else 0)))))"
proof -
  have e: "retrieve_scored client_one index_cat ''cat cat'' (7 / 10) =
     Inr [(0, 7 / 10 + 3 / 10 * tanh 1)]"
    by (simp add: cat_scored dot_def)
  from retrieve_scores_are_fused [OF e] e show ?thesis by simp
qed

subsection \<open>Chunk length floor\<close>

lemma trimStart_fix: "s \<noteq> [] \<Longrightarrow> \<not> isWhiteSpace (hd s) \<Longrightarrow> trimStart s = s"
  by (cases s) (auto simp: trimStart_def)

lemma trimEnd_fix: "s \<noteq> [] \<Longrightarrow> \<not> isWhiteSpace (last s) \<Longrightarrow> trimEnd s = s"
  by (cases s rule: rev_cases) (auto simp: trimEnd_def)

lemma trimEnd_last: "trimEnd s \<noteq> [] \<Longrightarrow> \<not> isWhiteSpace (last (trimEnd s))"
  using hd_dropWhile [of isWhiteSpace "rev s"]
  by (simp add: trimEnd_def last_rev)

lemma trimEnd_hd: "trimEnd s \<noteq> [] \<Longrightarrow> hd (trimEnd s) = hd s"
proof -
  assume ne: "trimEnd s \<noteq> []"
  have "trimEnd s = take (length s - length (takeWhile isWhiteSpace (rev s))) s"
    by (simp add: trimEnd_def dropWhile_eq_drop rev_drop)
  with ne show ?thesis by (metis hd_take take_eq_Nil not_gr_zero)
qed

lemma trimEnd_Nil [simp]: "trimEnd [] = []"
  by (simp add: trimEnd_def)

lemma trimStart_hd: "trimStart s \<noteq> [] \<Longrightarrow> \<not> isWhiteSpace (hd (trimStart s))"
  using hd_dropWhile [of isWhiteSpace s] by (simp add: trimStart_def)

lemma trim_idem: "trim (trim s) = trim s"
proof (cases "trim s = []")
  case True
  then show ?thesis by (simp add: trim_def trimStart_def)
next
  case False
  then have ne: "trimEnd (trimStart s) \<noteq> []" by (simp add: trim_def)
  then have ne': "trimStart s \<noteq> []" by auto
  have h: "\<not> isWhiteSpace (hd (trim s))"
    using trimEnd_hd [OF ne] trimStart_hd [OF ne'] by (simp add: trim_def)
  have l: "\<not> isWhiteSpace (last (trim s))"
    using trimEnd_last [OF ne] by (simp add: trim_def)
  have "trimStart (trim s) = trim s" using trimStart_fix [OF False h] .
  moreover have "trimEnd (trim s) = trim s" using trimEnd_fix [OF False l] .
  ultimately show ?thesis by (simp add: trim_def [of "trim s"])
qed

lemma push_if_long_kept:
  assumes "list_all kept_by_script (fst st)"
  shows "list_all kept_by_script (fst (push_if_long srcName sourcePath sec (trim t) st))"
  using assms
  by (cases st) (auto simp: push_if_long_def kept_by_script_def trim_idem)

lemma emit_script_kept:
  "list_all kept_by_script (bs_out st) \<Longrightarrow>
   list_all kept_by_script (bs_out (emit_script srcName sourcePath st))"
  using push_if_long_kept [of "(bs_out st, bs_order st)" srcName sourcePath
      "bs_currentSection st" "join NL (bs_acc st)"]
  by (auto simp: emit_script_def split: prod.splits)

lemma flushCur_kept:
  "list_all kept_by_script (fst (ss_out st)) \<Longrightarrow>
   list_all kept_by_script (fst (ss_out (flushCur srcName sourcePath sec overlap st)))"
  using push_if_long_kept [of "ss_out st" srcName sourcePath sec "join NL (ss_cur st)"]
  by (simp add: flushCur_def Let_def)

lemma split_line_kept:
  "list_all kept_by_script (fst (ss_out st)) \<Longrightarrow>
   list_all kept_by_script (fst (ss_out (split_line srcName sourcePath sec target overlap st l)))"
  using flushCur_kept [of st srcName sourcePath sec overlap]
  by (simp add: split_line_def Let_def)

lemma split_fold_kept:
  "list_all kept_by_script (fst (ss_out st)) \<Longrightarrow>
   list_all kept_by_script
     (fst (ss_out (fold (\<lambda>l s. split_line srcName sourcePath sec target overlap s l) ls st)))"
  by (induction ls arbitrary: st) (simp_all add: split_line_kept)

lemma split_block_kept:
  assumes "list_all kept_by_script (fst st)"
  shows "list_all kept_by_script (fst (split_block srcName sourcePath sec target overlap piece st))"
proof -
  let ?fin = "fold (\<lambda>l s. split_line srcName sourcePath sec target overlap s l) (split_nl piece)
                \<lparr>ss_out = st, ss_cur = [], ss_curLen = 0\<rparr>"
  have k: "list_all kept_by_script (fst (ss_out ?fin))"
    using split_fold_kept [of "\<lparr>ss_out = st, ss_cur = [], ss_curLen = 0\<rparr>"] assms by simp
  show ?thesis
    using k push_if_long_kept [OF k, of srcName sourcePath sec "join NL (ss_cur ?fin)"]
    by (simp add: split_block_def Let_def)
qed

lemma bundle_step_script_kept:
  assumes "list_all kept_by_script (bs_out st)"
  shows "list_all kept_by_script (bs_out (bundle_step_script srcName sourcePath target overlap st b))"
  using assms emit_script_kept [OF assms, of srcName sourcePath]
    split_block_kept [of "(bs_out st, bs_order st)" srcName sourcePath
      "section_of (headingTrail b)" target overlap "block_text b"]
  by (auto simp: bundle_step_script_def Let_def split: prod.splits)

lemma bundle_fold_script_kept:
  "list_all kept_by_script (bs_out st) \<Longrightarrow>
   list_all kept_by_script
     (bs_out (fold (\<lambda>b st. bundle_step_script srcName sourcePath target overlap st b) bs st))"
  by (induction bs arbitrary: st) (simp_all add: bundle_step_script_kept)

lemma chunkStructured_script_kept:
  "list_all kept_by_script (chunkStructured_script path_basename raw sourcePath target overlap)"
proof -
  let ?st0 = "\<lparr>bs_out = [], bs_order = 0, bs_acc = [], bs_accLen = 0,
                 bs_currentSection = (case to_blocks_script raw of [] \<Rightarrow> None
                                       | b # _ \<Rightarrow> section_of (headingTrail b))\<rparr>"
  let ?st = "fold (\<lambda>b st. bundle_step_script (path_basename sourcePath) sourcePath target overlap st b)
               (to_blocks_script raw) ?st0"
  have k: "list_all kept_by_script (bs_out ?st)"
    by (rule bundle_fold_script_kept) simp
  show ?thesis
    using k emit_script_kept [OF k, of "path_basename sourcePath" sourcePath]
    by (simp add: chunkStructured_script_def Let_def)
qed

lemma emit_nonempty:
  "list_all nonempty_text (bs_out st) \<Longrightarrow>
   list_all nonempty_text (bs_out (emit sha1 sourcePath st))"
  by (simp add: emit_def Let_def nonempty_text_def trim_idem)

lemma bundle_step_nonempty:
  assumes "list_all nonempty_text (bs_out st)"
  shows "list_all nonempty_text (bs_out (bundle_step sha1 sourcePath targetChars overlapChars st b))"
  using assms emit_nonempty [OF assms, of sha1 sourcePath]
  by (simp add: bundle_step_def Let_def)

lemma bundle_fold_nonempty:
  "list_all nonempty_text (bs_out st) \<Longrightarrow>
   list_all nonempty_text
     (bs_out (fold (\<lambda>b st. bundle_step sha1 sourcePath targetChars overlapChars st b) bs st))"
  by (induction bs arbitrary: st) (simp_all add: bundle_step_nonempty)

lemma chunkStructured_nonempty:
  "list_all nonempty_text (chunkStructured sha1 raw sourcePath targetChars overlapChars)"
proof -
  let ?st0 = "\<lparr>bs_out = [], bs_order = 0, bs_acc = [], bs_accLen = 0,
                 bs_currentSection = (case to_blocks raw of [] \<Rightarrow> None
                                       | b # _ \<Rightarrow> section_of (headingTrail b))\<rparr>"
  let ?st = "fold (\<lambda>b st. bundle_step sha1 sourcePath targetChars overlapChars st b)
               (to_blocks raw) ?st0"
  have k: "list_all nonempty_text (bs_out ?st)"
    by (rule bundle_fold_nonempty) simp
  show ?thesis
    using k emit_nonempty [OF k, of sha1 sourcePath]
    by (simp add: chunkStructured_def Let_def)
qed

text \<open>
  C7 (amended). For every input text, the chunker of the build script returns no chunk whose
  trimmed text is empty or shorter than \<open>MIN_CHARS_PER_CHUNK\<close> (120 characters), and the
  chunker of src/lib/rag/chunk.ts returns no chunk whose trimmed text is empty. The latter
  has no minimum length.
\<close>

theorem chunkers_drop_short_chunks:
  "(\<forall>c \<in> set (chunkStructured_script path_basename raw sourcePath target overlap).
      trim (text_c c) \<noteq> [] \<and> MIN_CHARS_PER_CHUNK \<le> length (trim (text_c c))) \<and>
   (\<forall>c \<in> set (chunkStructured sha1 raw sourcePath targetChars overlapChars).
      trim (text_c c) \<noteq> [])"
  using chunkStructured_script_kept [of path_basename raw sourcePath target overlap]
    chunkStructured_nonempty [of sha1 raw sourcePath targetChars overlapChars]
  by (simp add: list_all_iff kept_by_script_def nonempty_text_def)

subsection \<open>Chunkers on concrete texts\<close>

lemma not_heading_hi: "rx_test HEADING_RX ''hi'' = False"
  by (simp add: rx_test_def HEADING_RX_def Some1_def Lit_def AnyChar_def Let_def
      isWhiteSpace_def isLineTerminator_def isDigit_def isUpperAZ_def)

lemma heading_stage: "rx_test HEADING_RX ''# Stage'' = True"
  by (simp add: rx_test_def HEADING_RX_def Some1_def Lit_def AnyChar_def Let_def
      isWhiteSpace_def isLineTerminator_def isDigit_def isUpperAZ_def)

lemma heading_examples:
  "rx_test HEADING_RX ''STAGE INFO'' = True"
  "rx_test HEADING_RX ''Opmerking:'' = True"
  "rx_test HEADING_RX ''1.2 Deeltijd'' = True"
  "rx_test HEADING_RX ''#Stage'' = False"
  by (simp_all add: rx_test_def HEADING_RX_def Some1_def Lit_def AnyChar_def Let_def
      isWhiteSpace_def isLineTerminator_def isDigit_def isUpperAZ_def)

lemma decimal_digits:
  "decimal 0 = ''0''" "decimal 1 = ''1''" "decimal 2 = ''2''" "decimal 3 = ''3''"
  by (simp_all add: decimal.simps digit_char_def)

lemma trim_hi: "trim ''hi'' = ''hi''" "trimEnd ''hi'' = ''hi''"
  by (simp_all add: trim_def trimStart_def trimEnd_def isWhiteSpace_def)

lemma blocks_hi: "to_blocks ''hi'' = [\<lparr>headingTrail = [], block_text = ''hi''\<rparr>]"
  by (simp add: to_blocks_def line_step_def pushBuf_def trim_hi not_heading_hi Let_def NL_def)

lemma chunk_hi:
  "chunkStructured id ''hi'' ''/docs/a.md'' 1200 200 =
     [\<lparr>id_c = ''/docs/a.md::0::::hi'', source_name = ''a.md'', source_path = ''/docs/a.md'',
       section_c = None, text_c = ''hi'', order = 0\<rparr>]"
  by (simp add: chunkStructured_def blocks_hi bundle_step_def emit_def section_of_def
      last_segment_def trim_hi decimal_digits Let_def NL_def)

lemma not_heading_body: "rx_test HEADING_RX sample_body = False"
  by (simp add: sample_body_def rx_test_def HEADING_RX_def Some1_def Lit_def AnyChar_def Let_def
      isWhiteSpace_def isLineTerminator_def isDigit_def isUpperAZ_def)


lemma body_nonempty: "sample_body \<noteq> []"
  by (simp add: sample_body_def)

lemma trim_body: "trim sample_body = sample_body" "trimEnd sample_body = sample_body"
  by (simp_all add: sample_body_def trim_def trimStart_def trimEnd_def isWhiteSpace_def)

lemma normalize_sample:
  "normalizeWs sample_doc = sample_doc"
  by (simp add: sample_doc_def sample_body_def normalizeWs_def NL_def trim_def trimStart_def
      trimEnd_def isWhiteSpace_def)

lemma split_sample:
  "split_nl sample_doc = [''# Stage'', sample_body]"
  by (simp add: sample_doc_def sample_body_def NL_def)

lemma blocks_sample:
  "to_blocks_script sample_doc =
     [\<lparr>headingTrail = [''Stage''], block_text = sample_body\<rparr>]"
  by (simp add: to_blocks_script_def normalize_sample split_sample line_step_script_def
      pushBuf_def heading_stage not_heading_body trim_body body_nonempty strip_hashes_def strip_marks_def
      isWhiteSpace_def isDigit_def Let_def join.simps
      trim_def [of "[]"] trimStart_def [of "[]"] trimEnd_def [of "[]"]
      trimEnd_def [of "''# Stage''"])

lemma chunk_sample:
  "chunkStructured_script last_segment sample_doc ''/docs/a.md''
      CHUNK_CHAR_TARGET CHUNK_CHAR_OVERLAP =
     [\<lparr>id_c = ''a.md::0'', source_name = ''a.md'', source_path = ''/docs/a.md'',
       section_c = Some ''Stage'', text_c = sample_body, order = 0\<rparr>]"
proof -
  have len: "length sample_body = 125" by (simp add: sample_body_def)
  have ne: "sample_body \<noteq> []" by (simp add: sample_body_def)
  show ?thesis
    by (simp add: chunkStructured_script_def blocks_sample bundle_step_script_def
      emit_script_def push_if_long_def section_of_def last_segment_def trim_body
      decimal_digits len ne Let_def CHUNK_CHAR_TARGET_def CHUNK_CHAR_OVERLAP_def
      MIN_CHARS_PER_CHUNK_def)
qed

lemma chunk_hi_script:
  "chunkStructured_script last_segment ''hi'' ''/docs/a.md'' CHUNK_CHAR_TARGET CHUNK_CHAR_OVERLAP = []"
  by (simp add: chunkStructured_script_def to_blocks_script_def normalizeWs_def
      line_step_script_def pushBuf_def trim_hi not_heading_hi bundle_step_script_def
      emit_script_def push_if_long_def section_of_def NL_def Let_def CHUNK_CHAR_TARGET_def
      CHUNK_CHAR_OVERLAP_def MIN_CHARS_PER_CHUNK_def)


text \<open>The chunker of src/lib/rag/chunk.ts, which \<open>buildIndexWeb\<close> uses through \<open>smartChunk\<close>,
  returns the two-character text \<open>hi\<close> as a chunk.\<close>

theorem library_chunker_keeps_short_chunk:
  "chunkStructured id ''hi'' ''/docs/a.md'' 1200 200 =
     [\<lparr>id_c = ''/docs/a.md::0::::hi'', source_name = ''a.md'', source_path = ''/docs/a.md'',
       section_c = None, text_c = ''hi'', order = 0\<rparr>] \<and>
   smartChunk id ''hi'' 1800 200 = [''hi''] \<and>
   length (trim ''hi'') < MIN_CHARS_PER_CHUNK"
  by (simp add: chunk_hi trim_hi MIN_CHARS_PER_CHUNK_def smartChunk_def chunkStructured_def
      blocks_hi bundle_step_def emit_def section_of_def last_segment_def decimal_digits
      Let_def NL_def)

theorem chunkers_drop_short_chunks_witness:
  "chunkStructured_script last_segment sample_doc ''/docs/a.md''
      CHUNK_CHAR_TARGET CHUNK_CHAR_OVERLAP =
     [\<lparr>id_c = ''a.md::0'', source_name = ''a.md'', source_path = ''/docs/a.md'',
       section_c = Some ''Stage'', text_c = sample_body, order = 0\<rparr>] \<and>
   trim sample_body \<noteq> [] \<and> MIN_CHARS_PER_CHUNK \<le> length (trim sample_body) \<and>
   chunkStructured_script last_segment ''hi'' ''/docs/a.md''
      CHUNK_CHAR_TARGET CHUNK_CHAR_OVERLAP = [] \<and>
   trim ''hi'' \<noteq> []"
proof -
  have "trim sample_body \<noteq> [] \<and> MIN_CHARS_PER_CHUNK \<le> length (trim sample_body)"
    using chunkers_drop_short_chunks [of last_segment sample_doc "''/docs/a.md''"
        CHUNK_CHAR_TARGET CHUNK_CHAR_OVERLAP]
    unfolding chunk_sample by simp
  moreover have "trim ''hi'' \<noteq> []"
    using chunkers_drop_short_chunks [of _ "''hi''" "''/docs/a.md''" _ _ id 1200 200]
    unfolding chunk_hi by simp
  ultimately show ?thesis
    using chunk_sample chunk_hi_script by simp
qed

subsection \<open>Normalized vectors\<close>

lemma l2_norm_val: "l2_norm (map val v) = sqrt (sq_sum v)"
  by (simp add: l2_norm_def sq_sum_def o_def)

lemma embedWithRetry_from_answers:
  "embedWithRetry_from service inputs attempts i calls = (Inr data, calls') \<Longrightarrow>
   set data \<subseteq> service_answers service"
proof (induction service inputs attempts i calls rule: embedWithRetry_from.induct)
  case (1 service inputs attempts i calls)
  from "1.prems" have unf:
    "(if i < attempts
      then (case service calls EMBED_MODEL inputs of
              Inr data \<Rightarrow> (Inr data, calls + 1)
            | Inl e \<Rightarrow>
                if \<not> retriable e \<or> i = attempts - 1 then (Inl e, calls + 1)
                else embedWithRetry_from service inputs attempts (i + 1) (calls + 1))
      else (Inl ThrownUndefined, calls)) = (Inr data, calls')"
    by (subst (asm) embedWithRetry_from.simps)
  show ?case
  proof (cases "i < attempts")
    case False
    with unf show ?thesis by simp
  next
    case True
    show ?thesis
    proof (cases "service calls EMBED_MODEL inputs")
      case (Inr d)
      with True unf have "data = d" by simp
      with Inr show ?thesis by (auto simp: service_answers_def)
    next
      case (Inl e)
      show ?thesis
      proof (cases "\<not> retriable e \<or> i = attempts - 1")
        case True
        with \<open>i < attempts\<close> Inl unf show ?thesis by simp
      next
        case False
        with \<open>i < attempts\<close> Inl unf
        have "embedWithRetry_from service inputs attempts (i + 1) (calls + 1) = (Inr data, calls')"
          by simp
        with "1.IH" [OF \<open>i < attempts\<close> Inl False] show ?thesis by simp
      qed
    qed
  qed
qed

lemma embed_batches_vectors:
  "embed_batches service cs i calls vs = Inr out \<Longrightarrow>
   \<exists>es. out = vs @ map l2 es \<and> set es \<subseteq> service_answers service"
proof (induction service cs i calls vs rule: embed_batches.induct)
  case (1 service cs i calls vs)
  from "1.prems" have unf:
    "(if i < length cs
      then (case embedWithRetry service (map text_c (take BATCH (drop i cs))) calls of
              (Inl e, calls') \<Rightarrow> Inl e
            | (Inr data, calls') \<Rightarrow> embed_batches service cs (i + BATCH) calls' (vs @ map l2 data))
      else Inr vs) = Inr out"
    by (subst (asm) embed_batches.simps)
  show ?case
  proof (cases "i < length cs")
    case False
    with unf have "out = vs @ map l2 []" by simp
    moreover have "set ([] :: dvec list) \<subseteq> service_answers service" by simp
    ultimately show ?thesis by blast
  next
    case True
    obtain r calls' where r: "embedWithRetry service (map text_c (take BATCH (drop i cs))) calls = (r, calls')"
      by (cases "embedWithRetry service (map text_c (take BATCH (drop i cs))) calls")
    show ?thesis
    proof (cases r)
      case (Inl e)
      with True r unf show ?thesis by simp
    next
      case (Inr data)
      have rec: "embed_batches service cs (i + BATCH) calls' (vs @ map l2 data) = Inr out"
        using True r Inr unf by simp
      have "\<exists>es. out = (vs @ map l2 data) @ map l2 es \<and> set es \<subseteq> service_answers service"
        by (rule "1.IH" [OF True r [symmetric] Inr rec])
      then obtain es where es: "out = (vs @ map l2 data) @ map l2 es"
          "set es \<subseteq> service_answers service"
        by blast
      have "embedWithRetry_from service (map text_c (take BATCH (drop i cs))) 4 0 calls =
              (Inr data, calls')"
        using r Inr by (simp add: embedWithRetry_def)
      then have d: "set data \<subseteq> service_answers service"
        by (rule embedWithRetry_from_answers)
      have "out = vs @ map l2 (data @ es)" using es(1) by simp
      moreover have "set (data @ es) \<subseteq> service_answers service" using d es(2) by simp
      ultimately show ?thesis by blast
    qed
  qed
qed

text \<open>
  C1 (amended). In an index built by the build script there is one vector per chunk, and every
  stored vector is \<open>l2 e\<close> for an embedding \<open>e\<close> the embedding service returned. When \<open>e\<close> has
  at most \<open>2 ^ 20\<close> coordinates, each a zero or of a magnitude from \<open>2 powi (- 500)\<close> to
  \<open>2 powi 500\<close>, and not all of them zero (\<open>well_scaled\<close>), the Euclidean norm of the stored
  vector differs from 1 by at most \<open>10 ^ (- 6)\<close>. When every coordinate of \<open>e\<close> is a zero, the
  divisor is replaced by 1 and the stored vector is \<open>e\<close> itself.
\<close>

theorem script_vectors_are_normalized:
  assumes "main_out env = Inr out"
  shows "length (vectors out) = length (chunks out) \<and>
         (\<forall>v \<in> set (vectors out).
            \<exists>e \<in> service_answers (env_service env).
              v = l2 e \<and>
              (well_scaled e \<longrightarrow> \<bar>l2_norm (map val v) - 1\<bar> \<le> 1 / 10 ^ 6) \<and>
              ((\<forall>x \<in> set e. is_zero x) \<longrightarrow> v = e))"
proof -
  from assms obtain cs vs where
    b: "embed_batches (env_service env) cs 0 0 [] = Inr vs" and
    l: "length vs = length cs" and
    o: "out = \<lparr>model = EMBED_MODEL, dim = (case vs of [] \<Rightarrow> 0 | v # _ \<Rightarrow> length v),
                chunks = cs, vectors = vs\<rparr>"
    by (auto simp: main_out_def split: if_splits sum.splits)
  from embed_batches_vectors [OF b] obtain es where
    es: "vs = map l2 es" "set es \<subseteq> service_answers (env_service env)"
    by auto
  have "\<exists>e \<in> service_answers (env_service env).
              v = l2 e \<and>
              (well_scaled e \<longrightarrow> \<bar>l2_norm (map val v) - 1\<bar> \<le> 1 / 10 ^ 6) \<and>
              ((\<forall>x \<in> set e. is_zero x) \<longrightarrow> v = e)"
    if "v \<in> set vs" for v
  proof -
    from that es(1) obtain e where e: "e \<in> set es" "v = l2 e" by auto
    have m: "e \<in> service_answers (env_service env)" using e(1) es(2) by blast
    have a: "well_scaled e \<longrightarrow> \<bar>l2_norm (map val v) - 1\<bar> \<le> 1 / 10 ^ 6"
    proof
      assume "well_scaled e"
      then have "\<bar>sqrt (sq_sum (l2 e)) - 1\<bar> \<le> 2 powi (- 30)" by (rule l2_norm_close)
      with pow30_millionth show "\<bar>l2_norm (map val v) - 1\<bar> \<le> 1 / 10 ^ 6"
        unfolding e(2) l2_norm_val by linarith
    qed
    have b: "(\<forall>x \<in> set e. is_zero x) \<longrightarrow> v = e" using l2_zero [of e] e(2) by simp
    from m e(2) a b show ?thesis by (intro bexI [of _ e] conjI)
  qed
  then have "\<forall>v \<in> set (vectors out).
            \<exists>e \<in> service_answers (env_service env).
              v = l2 e \<and>
              (well_scaled e \<longrightarrow> \<bar>l2_norm (map val v) - 1\<bar> \<le> 1 / 10 ^ 6) \<and>
              ((\<forall>x \<in> set e. is_zero x) \<longrightarrow> v = e)"
    unfolding o by simp
  moreover have "length (vectors out) = length (chunks out)"
    unfolding o using l by simp
  ultimately show ?thesis by (intro conjI)
qed

subsection \<open>Builds on concrete inputs\<close>

lemma script_env_fields:
  "env_files script_env = [''/docs/a.md'']" "env_read script_env = read_sample"
  "env_service script_env = service_34" "env_index_file script_env = ''/idx/index.json''"
  "env_dir_exists script_env = True" "env_basename script_env = last_segment"
  "env_dirname script_env = parent_dir"
  by (simp_all add: script_env_def)

lemma sample_doc_nonblank: "sample_doc \<noteq> []" "trim sample_doc \<noteq> []"
  by (simp_all add: sample_doc_def NL_def trim_def trimStart_def trimEnd_def isWhiteSpace_def
      sample_body_def)

lemma collect_sample:
  "collect_chunks script_env [''/docs/a.md''] [] = Inr [sample_chunk]"
proof -
  have len: "length sample_body = 125" by (simp add: sample_body_def)
  show ?thesis
    by (simp add: script_env_fields read_sample_def sample_doc_nonblank chunk_sample
        sample_chunk_def MIN_CHARS_PER_CHUNK_def len)
qed

lemma l2_34: "l2 [Fin 3, Fin 4] = [fdiv (Fin 3) (Fin 5), fdiv (Fin 4) (Fin 5)]"
  by (simp add: l2_def Let_def fmul_def fadd_def small_numerals falsy_def)

lemma fdiv_3_5: "fdiv (Fin 3) (Fin 5) = Fin (5404319552844595 / 9007199254740992)"
proof -
  have "round_real (3 / 5) = of_int (rhe (3 / 5 * 2 powi (52 - (- 1)))) / 2 powi (52 - (- 1))"
    by (rule round_real_binade) (simp_all add: emin_def power_int_minus)
  also have "\<dots> = 5404319552844595 / 9007199254740992"
    by (simp add: rhe_def Let_def)
  finally have "round_real (3 / 5) = 5404319552844595 / 9007199254740992" .
  then show ?thesis by (simp add: fdiv_def rnd_def Let_def emax_def)
qed

lemma fdiv_4_5: "fdiv (Fin 4) (Fin 5) = Fin (3602879701896397 / 4503599627370496)"
proof -
  have "round_real (4 / 5) = of_int (rhe (4 / 5 * 2 powi (52 - (- 1)))) / 2 powi (52 - (- 1))"
    by (rule round_real_binade) (simp_all add: emin_def power_int_minus)
  also have "\<dots> = 3602879701896397 / 4503599627370496"
    by (simp add: rhe_def Let_def)
  finally have "round_real (4 / 5) = 3602879701896397 / 4503599627370496" .
  then show ?thesis by (simp add: fdiv_def rnd_def Let_def emax_def)
qed

lemma norm_examples: "l2_norm [3, 4] = 5" "l2_norm [0, 0] = 0"
  by (simp_all add: l2_norm_def)

lemma well_scaled_34: "well_scaled [Fin 3, Fin 4]"
  by (simp add: well_scaled_def dmax_def clo_def chi_def power_int_minus)

lemma retry_sample:
  "embedWithRetry service_34 [sample_body] 0 = (Inr [[Fin 3, Fin 4]], 1)"
  by (simp add: embedWithRetry_def embedWithRetry_from.simps [of _ _ 4 0] service_34_def)

lemma batches_sample:
  "embed_batches service_34 [sample_chunk] 0 0 [] =
     Inr [[fdiv (Fin 3) (Fin 5), fdiv (Fin 4) (Fin 5)]]"
proof -
  have t: "map text_c (take BATCH (drop 0 [sample_chunk])) = [sample_body]"
    by (simp add: BATCH_def sample_chunk_def)
  show ?thesis
    apply (subst embed_batches.simps)
    apply (simp only: t retry_sample)
    apply (subst embed_batches.simps)
    apply (simp add: BATCH_def l2_34)
    done
qed

lemma main_out_sample: "main_out script_env = Inr script_out"
  unfolding main_out_def script_env_fields collect_sample
  by (simp add: batches_sample script_out_def)

lemma service_34_answers: "e \<in> service_answers service_34 \<Longrightarrow> e = [Fin 3, Fin 4]"
  by (auto simp: service_answers_def service_34_def)

theorem script_vectors_witness:
  "main_out script_env = Inr script_out \<and>
   vectors script_out = [[fdiv (Fin 3) (Fin 5), fdiv (Fin 4) (Fin 5)]] \<and>
   well_scaled [Fin 3, Fin 4] \<and>
   l2 [Fin 3, Fin 4] =
     [Fin (5404319552844595 / 9007199254740992), Fin (3602879701896397 / 4503599627370496)] \<and>
   \<bar>l2_norm (map val [fdiv (Fin 3) (Fin 5), fdiv (Fin 4) (Fin 5)]) - 1\<bar> \<le> 1 / 10 ^ 6"
proof -
  have v: "vectors script_out = [[fdiv (Fin 3) (Fin 5), fdiv (Fin 4) (Fin 5)]]"
    by (simp add: script_out_def)
  from script_vectors_are_normalized [OF main_out_sample]
  have "\<forall>v \<in> set (vectors script_out).
          \<exists>e \<in> service_answers (env_service script_env).
            v = l2 e \<and> (well_scaled e \<longrightarrow> \<bar>l2_norm (map val v) - 1\<bar> \<le> 1 / 10 ^ 6) \<and>
            ((\<forall>x \<in> set e. is_zero x) \<longrightarrow> v = e)"
    by (rule conjunct2)
  then obtain e where e: "e \<in> service_answers (env_service script_env)"
      "well_scaled e \<longrightarrow>
         \<bar>l2_norm (map val [fdiv (Fin 3) (Fin 5), fdiv (Fin 4) (Fin 5)]) - 1\<bar> \<le> 1 / 10 ^ 6"
    unfolding v by auto
  from e(1) have "e = [Fin 3, Fin 4]"
    by (simp add: script_env_fields service_34_answers)
  with e(2) well_scaled_34
  have "\<bar>l2_norm (map val [fdiv (Fin 3) (Fin 5), fdiv (Fin 4) (Fin 5)]) - 1\<bar> \<le> 1 / 10 ^ 6"
    by simp
  moreover have "l2 [Fin 3, Fin 4] =
     [Fin (5404319552844595 / 9007199254740992), Fin (3602879701896397 / 4503599627370496)]"
    by (simp only: l2_34 fdiv_3_5 fdiv_4_5)
  ultimately show ?thesis using main_out_sample v well_scaled_34 by blast
qed

lemma web_example_fields:
  "web_files web_example = [''/docs/a.md'']" "web_read web_example = read_hi"
  "web_api_key web_example = True" "web_service web_example = service_34"
  "web_model web_example = ''text-embedding-3-large''" "web_target web_example = 1800"
  "web_overlap web_example = 200" "web_batch web_example = 64"
  "web_now web_example = ''2025-01-01T00:00:00.000Z''" "web_basename web_example = last_segment"
  "web_dirname web_example = parent_dir" "web_sha1 web_example = id"
  by (simp_all add: web_example_def)

lemma smartChunk_hi: "smartChunk id ''hi'' 1800 200 = [''hi'']"
  by (simp add: smartChunk_def chunkStructured_def blocks_hi bundle_step_def emit_def
      section_of_def last_segment_def trim_hi decimal_digits Let_def NL_def)

lemma web_batches_hi:
  "web_batches web_example ''/docs/a.md'' ''a.md'' [''hi''] 0 0 [] = Some (Inr [web_item], 1)"
  apply (subst web_batches.simps)
  apply (simp add: web_example_fields service_34_def batch_items_def nth_opt_def
      decimal_digits web_item_def Let_def)
  apply (subst web_batches.simps)
  apply simp
  done

lemma web_files_hi:
  "web_files_loop web_example [''/docs/a.md''] 0 [] = Some (Inr [web_item])"
  by (simp add: web_example_fields read_hi_def trim_hi smartChunk_hi last_segment_def
      web_batches_hi Let_def)

lemma parent_dir_examples:
  "parent_dir ''/idx/web.json'' = ''/idx''" "parent_dir ''/idx/index.json'' = ''/idx''"
  by (simp_all add: parent_dir_def)

lemma buildIndexWeb_hi:
  "buildIndexWeb web_example ''/docs'' ''/idx/web.json'' =
     Some (Inr (1, 1, ''/idx/web.json''),
           [Mkdir ''/idx'',
            WriteFile ''/idx/web.json''
              (ragindex_json 2 [web_item] ''2025-01-01T00:00:00.000Z'' ''/docs'')])"
  unfolding buildIndexWeb_def web_example_fields web_files_hi
  by (simp add: web_item_def parent_dir_examples numeral_2_eq_2)

lemma l2_pow2_overflow:
  assumes "emax \<le> k + k"
  shows "l2 [Fin (2 powi k), Fin (2 powi k)] = [Fin 0, Fin 0]"
proof -
  have s: "fold (\<lambda>x s. fadd s (fmul x x)) [Fin (2 powi k), Fin (2 powi k)] (Fin 0) = PosInf"
    by (simp add: fmul_pow2_overflow [OF assms] fadd_def)
  have d: "fdiv (Fin (2 powi k)) PosInf = Fin 0"
    by (simp add: fdiv_def signed_zero_def)
  show ?thesis unfolding l2_def s by (simp add: falsy_def d)
qed

lemma l2_pow2_underflow:
  assumes "k + k < emin - 53" "emin - 52 \<le> k" "k < emax"
  shows "l2 [Fin (2 powi k), Fin 0] = [Fin (2 powi k), Fin 0]"
proof -
  have z: "fmul (Fin 0) (Fin 0) = Fin 0" by (simp add: fmul_def signed_zero_def)
  have s: "fold (\<lambda>x s. fadd s (fmul x x)) [Fin (2 powi k), Fin 0] (Fin 0) = Fin 0"
    by (simp add: fmul_pow2_underflow [OF assms(1)] z fadd_def signed_zero_def)
  have d: "fdiv (Fin (2 powi k)) (Fin 1) = Fin (2 powi k)" "fdiv (Fin 0) (Fin 1) = Fin 0"
    by (simp_all add: fdiv_def signed_zero_def rnd_pow2 [OF assms(2,3)])
  show ?thesis unfolding l2_def s by (simp add: falsy_def d)
qed

lemma l2_norm_pow2_0: "l2_norm (map val [Fin (2 powi k), Fin 0]) = 2 powi k"
proof -
  have "sqrt (2 powi k * 2 powi k) = 2 powi k" by (simp only: pow2_mult pow2_sqrt)
  then show ?thesis by (simp add: l2_norm_def)
qed

text \<open>\<open>buildIndexWeb\<close> stores the embedding \<open>[3, 4]\<close> as the service returns it, with norm 5.
  In the build script, \<open>l2\<close> turns the embedding with the two coordinates \<open>2 powi 600\<close> into
  the zero vector (the squares overflow), and leaves the embedding \<open>[2 powi (- 600), 0]\<close>,
  of norm \<open>2 powi (- 600)\<close>, as it is (the square underflows to 0 and the divisor is 1).\<close>

theorem web_build_stores_raw_embedding:
  "buildIndexWeb web_example ''/docs'' ''/idx/web.json'' =
     Some (Inr (1, 1, ''/idx/web.json''),
           [Mkdir ''/idx'',
            WriteFile ''/idx/web.json''
              (ragindex_json 2 [web_item] ''2025-01-01T00:00:00.000Z'' ''/docs'')]) \<and>
   embedding web_item = [Fin 3, Fin 4] \<and> l2_norm (map val (embedding web_item)) = 5 \<and>
   l2 [Fin (2 powi 600), Fin (2 powi 600)] = [Fin 0, Fin 0] \<and>
   l2 [Fin (2 powi (- 600)), Fin 0] = [Fin (2 powi (- 600)), Fin 0] \<and>
   l2_norm (map val [Fin (2 powi (- 600)), Fin 0]) = 2 powi (- 600)"
proof -
  have a: "(- 600 :: int) + - 600 < emin - 53" "emin - 52 \<le> - 600" "(- 600 :: int) < emax"
    by (simp_all add: emin_def emax_def)
  have b: "emax \<le> 600 + 600" by (simp add: emax_def)
  have w: "embedding web_item = [Fin 3, Fin 4]" "l2_norm (map val (embedding web_item)) = 5"
    using norm_examples by (simp_all add: web_item_def)
  show ?thesis
    using buildIndexWeb_hi w l2_pow2_overflow [OF b] l2_pow2_underflow [OF a]
      l2_norm_pow2_0 [of "- 600"]
    by blast
qed

lemma tmp_path_differs: "ends_with_json p \<Longrightarrow> tmp_path p \<noteq> p"
proof
  assume e: "ends_with_json p" and t: "tmp_path p = p"
  from e have "5 \<le> length p" by (simp add: ends_with_json_def)
  moreover from e t have "length (take (length p - 5) p @ ''.tmp.json'') = length p"
    by (simp add: tmp_path_def)
  ultimately show False by simp
qed

lemma observable_write_rename:
  assumes "tmp \<noteq> p"
  shows "observable_states fs [WriteFile tmp j, Rename tmp p] =
           [fs, fs(tmp \<mapsto> NotJson []), fs(tmp \<mapsto> JsonText j),
            (fs(p \<mapsto> JsonText j))(tmp := None)]"
  using assms by (auto simp: fun_upd_twist)

lemma observable_mkdir:
  "observable_states fs (Mkdir d # ops) = fs # observable_states fs ops"
  by simp

text \<open>
  C5 (amended). A build of the build script that fails before writing performs no operation
  on the file system. A build that succeeds writes the object with the properties \<open>model\<close>,
  \<open>dim\<close>, \<open>chunks\<close> and \<open>vectors\<close> to the temporary path and then renames the temporary path to
  the index path. When the index path ends in \<open>.json\<close> the temporary path is another path, and
  then, whatever the file system held before, the index path holds at every moment of the
  build either what it held before or the complete new index, and at the end the new index.
\<close>

theorem script_build_replaces_index_by_rename:
  "(\<forall>e. main_out env = Inl e \<longrightarrow> main env = (Inl e, [])) \<and>
   (\<forall>out. main_out env = Inr out \<longrightarrow>
      main env =
        (Inr (),
         (if env_dir_exists env then [] else [Mkdir (env_dirname env (env_index_file env))]) @
         [WriteFile (tmp_path (env_index_file env)) (index_json out),
          Rename (tmp_path (env_index_file env)) (env_index_file env)]) \<and>
      index_json out =
        JObj [(''model'', JStr (model out)), (''dim'', JNum (real (dim out))),
              (''chunks'', JArr (map chunk_json (chunks out))),
              (''vectors'', JArr (map vec_json (vectors out)))] \<and>
      (ends_with_json (env_index_file env) \<longrightarrow>
         tmp_path (env_index_file env) \<noteq> env_index_file env \<and>
         (\<forall>fs.
            (\<forall>s \<in> set (observable_states fs (snd (main env))).
               s (env_index_file env) = fs (env_index_file env) \<or>
               s (env_index_file env) = Some (JsonText (index_json out))) \<and>
            last (observable_states fs (snd (main env))) (env_index_file env) =
              Some (JsonText (index_json out)))))"
proof (intro conjI allI impI ballI)
  fix e assume "main_out env = Inl e"
  then show "main env = (Inl e, [])" by (simp add: main_def)
next
  fix out assume o: "main_out env = Inr out"
  show "main env =
        (Inr (),
         (if env_dir_exists env then [] else [Mkdir (env_dirname env (env_index_file env))]) @
         [WriteFile (tmp_path (env_index_file env)) (index_json out),
          Rename (tmp_path (env_index_file env)) (env_index_file env)])"
    using o by (simp add: main_def Let_def)
next
  fix out
  show "index_json out =
        JObj [(''model'', JStr (model out)), (''dim'', JNum (real (dim out))),
              (''chunks'', JArr (map chunk_json (chunks out))),
              (''vectors'', JArr (map vec_json (vectors out)))]"
    by (simp add: index_json_def)
next
  assume "ends_with_json (env_index_file env)"
  then show "tmp_path (env_index_file env) \<noteq> env_index_file env"
    by (rule tmp_path_differs)
next
  fix out fs s
  assume o: "main_out env = Inr out" and j: "ends_with_json (env_index_file env)"
    and s: "s \<in> set (observable_states fs (snd (main env)))"
  let ?p = "env_index_file env"
  have ne: "tmp_path ?p \<noteq> ?p" using j by (rule tmp_path_differs)
  have "s \<in> set (fs # observable_states fs
                 [WriteFile (tmp_path ?p) (index_json out), Rename (tmp_path ?p) ?p])"
    using s o by (cases "env_dir_exists env") (simp_all add: main_def Let_def)
  then show "s ?p = fs ?p \<or> s ?p = Some (JsonText (index_json out))"
    unfolding observable_write_rename [OF ne] using ne by auto
next
  fix out fs
  assume o: "main_out env = Inr out" and j: "ends_with_json (env_index_file env)"
  let ?p = "env_index_file env"
  have ne: "tmp_path ?p \<noteq> ?p" using j by (rule tmp_path_differs)
  have "last (observable_states fs (snd (main env))) =
        last (observable_states fs
                 [WriteFile (tmp_path ?p) (index_json out), Rename (tmp_path ?p) ?p])"
    using o by (cases "env_dir_exists env") (simp_all add: main_def Let_def)
  then show "last (observable_states fs (snd (main env))) ?p = Some (JsonText (index_json out))"
    unfolding observable_write_rename [OF ne] using ne by simp
qed

lemma ends_with_json_example: "ends_with_json ''/idx/index.json''"
  by (simp add: ends_with_json_def toLowerCase_def lowerChar_def)

lemma tmp_path_example: "tmp_path ''/idx/index.json'' = ''/idx/index.tmp.json''"
  by (simp add: tmp_path_def ends_with_json_example)

theorem script_build_witness:
  "main_out script_env = Inr script_out \<and>
   ends_with_json (env_index_file script_env) \<and>
   main script_env =
     (Inr (), [WriteFile ''/idx/index.tmp.json'' (index_json script_out),
               Rename ''/idx/index.tmp.json'' ''/idx/index.json'']) \<and>
   last (observable_states Map.empty (snd (main script_env))) ''/idx/index.json'' =
     Some (JsonText (index_json script_out))"
proof -
  have e: "ends_with_json (env_index_file script_env)"
    by (simp add: script_env_fields ends_with_json_example)
  from script_build_replaces_index_by_rename [of script_env] main_out_sample e
  have m: "main script_env =
        (Inr (),
         (if env_dir_exists script_env then []
          else [Mkdir (env_dirname script_env (env_index_file script_env))]) @
         [WriteFile (tmp_path (env_index_file script_env)) (index_json script_out),
          Rename (tmp_path (env_index_file script_env)) (env_index_file script_env)])"
    and l: "last (observable_states Map.empty (snd (main script_env)))
              (env_index_file script_env) = Some (JsonText (index_json script_out))"
    by blast+
  from m have "main script_env =
     (Inr (), [WriteFile ''/idx/index.tmp.json'' (index_json script_out),
               Rename ''/idx/index.tmp.json'' ''/idx/index.json''])"
    by (simp add: script_env_fields tmp_path_example)
  moreover from l have "last (observable_states Map.empty (snd (main script_env)))
      ''/idx/index.json'' = Some (JsonText (index_json script_out))"
    by (simp add: script_env_fields)
  ultimately show ?thesis using main_out_sample e by blast
qed

text \<open>\<open>buildIndexWeb\<close> writes the object with the properties \<open>dim\<close>, \<open>items\<close>, \<open>created_at\<close> and
  \<open>docs_dir\<close> to the target path itself, so that the target passes through a state that is
  not the index; the build script writes the properties \<open>model\<close>, \<open>dim\<close>, \<open>chunks\<close> and
  \<open>vectors\<close>.\<close>

theorem web_build_writes_target_directly:
  "buildIndexWeb web_example ''/docs'' ''/idx/web.json'' =
     Some (Inr (1, 1, ''/idx/web.json''),
           [Mkdir ''/idx'',
            WriteFile ''/idx/web.json''
              (ragindex_json 2 [web_item] ''2025-01-01T00:00:00.000Z'' ''/docs'')]) \<and>
   ragindex_json 2 [web_item] ''2025-01-01T00:00:00.000Z'' ''/docs'' =
     JObj [(''dim'', JNum 2), (''items'', JArr [item_json web_item]),
           (''created_at'', JStr ''2025-01-01T00:00:00.000Z''), (''docs_dir'', JStr ''/docs'')] \<and>
   observable_states [''/idx/web.json'' \<mapsto> JsonText JNull]
     [Mkdir ''/idx'',
      WriteFile ''/idx/web.json''
        (ragindex_json 2 [web_item] ''2025-01-01T00:00:00.000Z'' ''/docs'')] ! 2 =
     [''/idx/web.json'' \<mapsto> NotJson []] \<and>
   main script_env =
     (Inr (), [WriteFile ''/idx/index.tmp.json'' (index_json script_out),
               Rename ''/idx/index.tmp.json'' ''/idx/index.json'']) \<and>
   index_json script_out =
     JObj [(''model'', JStr EMBED_MODEL), (''dim'', JNum 2),
           (''chunks'', JArr [chunk_json sample_chunk]),
           (''vectors'', JArr [vec_json [fdiv (Fin 3) (Fin 5), fdiv (Fin 4) (Fin 5)]])]"
proof -
  have "main script_env =
     (Inr (), [WriteFile ''/idx/index.tmp.json'' (index_json script_out),
               Rename ''/idx/index.tmp.json'' ''/idx/index.json''])"
    by (simp add: main_def main_out_sample script_env_fields tmp_path_example Let_def)
  then show ?thesis
    using buildIndexWeb_hi
    by (simp add: ragindex_json_def index_json_def script_out_def)
qed

subsection \<open>Layout of the indexes the build script writes\<close>

lemma push_if_long_numbered:
  "numbered sp st \<Longrightarrow> numbered sp (push_if_long srcName sp sec t st)"
  by (cases st) (auto simp: push_if_long_def numbered_def)

lemma emit_script_numbered:
  assumes "numbered sp (bs_out st, bs_order st)"
  shows "numbered sp (bs_out (emit_script srcName sp st), bs_order (emit_script srcName sp st))"
  using push_if_long_numbered [OF assms, of srcName "bs_currentSection st"
      "trim (join NL (bs_acc st))"]
  by (auto simp: emit_script_def split: prod.splits)

lemma emit_script_acc [simp]:
  "bs_acc (emit_script srcName sp st) = bs_acc st"
  by (simp add: emit_script_def split: prod.splits)

lemma flushCur_numbered:
  "numbered sp (ss_out st) \<Longrightarrow> numbered sp (ss_out (flushCur srcName sp sec overlap st))"
  by (simp add: flushCur_def Let_def push_if_long_numbered)

lemma split_line_numbered:
  "numbered sp (ss_out st) \<Longrightarrow>
   numbered sp (ss_out (split_line srcName sp sec target overlap st l))"
  by (simp add: split_line_def Let_def flushCur_numbered)

lemma split_fold_numbered:
  "numbered sp (ss_out st) \<Longrightarrow>
   numbered sp (ss_out (fold (\<lambda>l s. split_line srcName sp sec target overlap s l) ls st))"
  by (induction ls arbitrary: st) (simp_all add: split_line_numbered)

lemma split_block_numbered:
  assumes "numbered sp st"
  shows "numbered sp (split_block srcName sp sec target overlap piece st)"
proof -
  let ?fin = "fold (\<lambda>l s. split_line srcName sp sec target overlap s l) (split_nl piece)
                \<lparr>ss_out = st, ss_cur = [], ss_curLen = 0\<rparr>"
  have k: "numbered sp (ss_out ?fin)"
    using split_fold_numbered [of sp "\<lparr>ss_out = st, ss_cur = [], ss_curLen = 0\<rparr>"] assms by simp
  then show ?thesis
    by (simp add: split_block_def Let_def push_if_long_numbered)
qed

lemma bundle_step_script_numbered:
  assumes "numbered sp (bs_out st, bs_order st)"
  shows "numbered sp (bs_out (bundle_step_script srcName sp target overlap st b),
                      bs_order (bundle_step_script srcName sp target overlap st b))"
proof (cases "2 * length (block_text b) > 3 * target")
  case True
  obtain cs n where r: "split_block srcName sp (section_of (headingTrail b)) target overlap
      (block_text b) (bs_out st, bs_order st) = (cs, n)"
    by (cases "split_block srcName sp (section_of (headingTrail b)) target overlap
      (block_text b) (bs_out st, bs_order st)")
  have "numbered sp (cs, n)"
    using split_block_numbered [OF assms, of srcName "section_of (headingTrail b)" target
        overlap "block_text b"] r by simp
  with True r show ?thesis by (simp add: bundle_step_script_def Let_def)
next
  case False
  with assms emit_script_numbered [OF assms, of srcName] show ?thesis
    by (simp add: bundle_step_script_def Let_def)
qed

lemma bundle_fold_script_numbered:
  "numbered sp (bs_out st, bs_order st) \<Longrightarrow>
   numbered sp
     (bs_out (fold (\<lambda>b st. bundle_step_script srcName sp target overlap st b) bs st),
      bs_order (fold (\<lambda>b st. bundle_step_script srcName sp target overlap st b) bs st))"
  by (induction bs arbitrary: st) (simp_all add: bundle_step_script_numbered)

lemma chunkStructured_script_numbered:
  "map order (chunkStructured_script bn raw sp target overlap) =
     [0..<length (chunkStructured_script bn raw sp target overlap)] \<and>
   (\<forall>c \<in> set (chunkStructured_script bn raw sp target overlap). source_path c = sp)"
proof -
  let ?st0 = "\<lparr>bs_out = [], bs_order = 0, bs_acc = [], bs_accLen = 0,
                 bs_currentSection = (case to_blocks_script raw of [] \<Rightarrow> None
                                       | b # _ \<Rightarrow> section_of (headingTrail b))\<rparr>"
  let ?st = "fold (\<lambda>b st. bundle_step_script (bn sp) sp target overlap st b)
               (to_blocks_script raw) ?st0"
  let ?fin = "if bs_acc ?st \<noteq> [] then emit_script (bn sp) sp ?st else ?st"
  have k: "numbered sp (bs_out ?st, bs_order ?st)"
    by (rule bundle_fold_script_numbered) (simp add: numbered_def)
  have "numbered sp (bs_out ?fin, bs_order ?fin)"
    using k emit_script_numbered [OF k, of "bn sp"] by simp
  then have n: "map order (bs_out ?fin) = [0..<bs_order ?fin]"
    and p: "\<forall>c \<in> set (bs_out ?fin). source_path c = sp"
    by (simp_all add: numbered_def)
  from n have "length (bs_out ?fin) = bs_order ?fin"
    by (metis length_map length_upt minus_nat.diff_0)
  with n p show ?thesis
    by (simp add: chunkStructured_script_def Let_def)
qed

lemma length_trim_le: "length (trim s) \<le> length s"
proof -
  have "length (trimEnd (trimStart s)) \<le> length (trimStart s)"
    using length_dropWhile_le [of isWhiteSpace "rev (trimStart s)"] by (simp add: trimEnd_def)
  also have "\<dots> \<le> length s" by (simp add: trimStart_def length_dropWhile_le)
  finally show ?thesis by (simp add: trim_def)
qed

lemma script_filter_keeps_all:
  "filter (\<lambda>c. length (text_c c) \<ge> MIN_CHARS_PER_CHUNK)
     (chunkStructured_script bn raw sp target overlap) =
   chunkStructured_script bn raw sp target overlap"
proof (rule filter_True)
  show "\<forall>c \<in> set (chunkStructured_script bn raw sp target overlap).
          MIN_CHARS_PER_CHUNK \<le> length (text_c c)"
  proof
    fix c assume "c \<in> set (chunkStructured_script bn raw sp target overlap)"
    then have "MIN_CHARS_PER_CHUNK \<le> length (trim (text_c c))"
      using chunkStructured_script_kept [of bn raw sp target overlap]
      by (simp add: list_all_iff kept_by_script_def)
    with length_trim_le [of "text_c c"] show "MIN_CHARS_PER_CHUNK \<le> length (text_c c)"
      by simp
  qed
qed

lemma layout_ok_consecutive:
  "\<forall>i < length cs. order (cs ! i) = n + i \<Longrightarrow> \<forall>c \<in> set cs. source_path c = sp \<Longrightarrow>
   layout_ok cs"
proof (induction cs arbitrary: n rule: layout_ok.induct)
  case 1
  then show ?case by simp
next
  case (2 c)
  then show ?case by simp
next
  case (3 c d cs)
  from "3.prems"(1) have c: "order ((c # d # cs) ! 0) = n + 0" by blast
  from "3.prems"(1) have d: "order ((c # d # cs) ! 1) = n + 1" by force
  have "\<forall>i < length (d # cs). order ((d # cs) ! i) = Suc n + i"
  proof (intro allI impI)
    fix i assume "i < length (d # cs)"
    then have "Suc i < length (c # d # cs)" by simp
    with "3.prems"(1) have "order ((c # d # cs) ! Suc i) = n + Suc i" by blast
    then show "order ((d # cs) ! i) = Suc n + i" by simp
  qed
  then have "layout_ok (d # cs)"
    using "3.IH" [of "Suc n"] "3.prems"(2) by simp
  with c d "3.prems"(2) show ?case by simp
qed

lemma layout_ok_same_path:
  assumes "map order cs = [0..<length cs]" "\<forall>c \<in> set cs. source_path c = sp"
  shows "layout_ok cs"
proof (rule layout_ok_consecutive [of cs 0 sp])
  show "\<forall>i < length cs. order (cs ! i) = 0 + i"
  proof (intro allI impI)
    fix i assume i: "i < length cs"
    then have "order (cs ! i) = map order cs ! i" by simp
    also have "\<dots> = [0..<length cs] ! i" using assms(1) by simp
    also have "\<dots> = 0 + i" using i by simp
    finally show "order (cs ! i) = 0 + i" .
  qed
qed (rule assms(2))

lemma layout_ok_append:
  "layout_ok xs \<Longrightarrow> layout_ok ys \<Longrightarrow>
   source_path ` set xs \<inter> source_path ` set ys = {} \<Longrightarrow> layout_ok (xs @ ys)"
proof (induction xs rule: layout_ok.induct)
  case 1
  then show ?case by simp
next
  case (2 c)
  then show ?case by (cases ys) auto
next
  case (3 c d cs)
  from "3.prems" have "layout_ok ((d # cs) @ ys)"
    by (intro "3.IH") auto
  with "3.prems" show ?case by auto
qed

lemma collect_chunks_layout:
  "collect_chunks env fs cs = Inr out \<Longrightarrow> distinct fs \<Longrightarrow> layout_ok cs \<Longrightarrow>
   source_path ` set cs \<inter> set fs = {} \<Longrightarrow> layout_ok out"
proof (induction fs arbitrary: cs)
  case Nil
  then show ?case by simp
next
  case (Cons f fs)
  from Cons.prems(1) obtain content where r: "env_read env f = Inr content"
    by (auto split: sum.splits)
  show ?case
  proof (cases "content = [] \<or> trim content = []")
    case True
    with Cons.prems r have "collect_chunks env fs cs = Inr out" by simp
    then show ?thesis using Cons.prems by (intro Cons.IH [of cs]) auto
  next
    case False
    let ?parts = "chunkStructured_script (env_basename env) content f CHUNK_CHAR_TARGET CHUNK_CHAR_OVERLAP"
    from False Cons.prems(1) r have rec: "collect_chunks env fs (cs @ ?parts) = Inr out"
      by (simp add: script_filter_keeps_all)
    have num: "map order ?parts = [0..<length ?parts]" and pth: "\<forall>c \<in> set ?parts. source_path c = f"
      using chunkStructured_script_numbered [of "env_basename env" content f] by simp_all
    have lp: "layout_ok ?parts" using layout_ok_same_path [OF num pth] .
    have dis: "source_path ` set cs \<inter> source_path ` set ?parts = {}"
      using pth Cons.prems(4) by auto
    have l: "layout_ok (cs @ ?parts)" using layout_ok_append [OF Cons.prems(3) lp dis] .
    have "source_path ` set (cs @ ?parts) \<inter> set fs = {}"
      using pth Cons.prems(2,4) by auto
    with rec l Cons.prems(2) show ?thesis by (intro Cons.IH [of "cs @ ?parts"]) auto
  qed
qed

lemma script_index_layout_ok:
  assumes "main_out env = Inr out" "distinct (env_files env)"
  shows "layout_ok (chunks out)"
proof -
  from assms(1) obtain cs where c: "collect_chunks env (env_files env) [] = Inr cs"
    and o: "chunks out = cs"
    by (auto simp: main_out_def split: if_splits sum.splits)
  from collect_chunks_layout [OF c assms(2)] o show ?thesis by simp
qed

subsection \<open>Re-ranking and trimming\<close>

lemma attach_scores_found:
  "attach_scores scored is = Inr ps \<Longrightarrow> \<forall>p \<in> set ps. find_score scored (fst p) = Inr (snd p)"
  by (induction "is" arbitrary: ps) (auto split: sum.splits)

lemma attach_scores_again:
  "\<forall>p \<in> set qs. find_score scored (fst p) = Inr (snd p) \<Longrightarrow>
   attach_scores scored (map fst qs) = Inr qs"
  by (induction qs) auto

lemma to_hit_fields [simp]: "rank (to_hit c s) = 0" "score (to_hit c s) = s"
  by (simp_all add: to_hit_def Chunk.extend_def)

lemma sort_desc_descending: "sorted_wrt (\<lambda>a b. snd b \<le> snd a) (sort_desc xs)"
proof -
  have "sorted (map (\<lambda>it. - snd it) (sort_desc xs))"
    by (simp add: sort_desc_def)
  then show ?thesis
    by (simp add: sorted_wrt_map)
qed

lemma sorted_wrt_take: "sorted_wrt P xs \<Longrightarrow> sorted_wrt P (take k xs)"
  by (metis append_take_drop_id sorted_wrt_append)

lemma retrieve_sorted_trimmed_unranked:
  assumes "retrieve client index question topK neighborWindow alpha = Inr hits"
  shows "length hits \<le> topK + 2 \<and>
         sorted_wrt (\<lambda>a b. score b \<le> score a) hits \<and>
         (\<forall>h \<in> set hits. rank h = 0)"
proof -
  from assms obtain scored picked pairs final where
    a1: "attach_scores scored (expand_picked (chunks index) neighborWindow picked []) = Inr pairs" and
    a2: "attach_scores scored (map fst (take (topK + 2) (sort_desc pairs))) = Inr final" and
    h: "hits = map (\<lambda>(i, s). to_hit (chunks index ! i) s) final"
    by (auto simp: retrieve_def Let_def split: sum.splits prod.splits)
  let ?top = "take (topK + 2) (sort_desc pairs)"
  have "set ?top \<subseteq> set pairs"
    using set_take_subset [of "topK + 2" "sort_desc pairs"] by simp
  then have "\<forall>p \<in> set ?top. find_score scored (fst p) = Inr (snd p)"
    using attach_scores_found [OF a1] by blast
  then have "attach_scores scored (map fst ?top) = Inr ?top"
    by (rule attach_scores_again)
  with a2 have f: "final = ?top" by simp
  have l: "length hits \<le> topK + 2" using h f by simp
  have "sorted_wrt (\<lambda>a b. snd b \<le> snd a) final"
    unfolding f by (intro sorted_wrt_take sort_desc_descending)
  then have s: "sorted_wrt (\<lambda>a b. score b \<le> score a) hits"
    unfolding h by (simp add: sorted_wrt_map case_prod_beta)
  have r: "\<forall>h \<in> set hits. rank h = 0" unfolding h by auto
  from l s r show ?thesis by blast
qed

end
